theory Spec2Isabelle
  imports Main "HOL-Library.Sublist"
begin

section \<open>Text: Python strings as lists of code points\<close>

text \<open>
  A Python \<^verbatim>\<open>str\<close> is a sequence of Unicode code points, so a string is a list of
  natural numbers here. The four Hangul syllables of the patterns in
  \<^verbatim>\<open>kr_statute.py\<close> are named after their romanisation.
\<close>

type_synonym uchar = nat
type_synonym ustring = "uchar list"

definition ascii :: "string \<Rightarrow> ustring" where
  "ascii s = map of_char s"

definition c_je :: uchar where "c_je = 0xC81C"
definition c_jo :: uchar where "c_jo = 0xC870"
definition c_ui :: uchar where "c_ui = 0xC758"
definition c_hang :: uchar where "c_hang = 0xD56D"

text \<open>
  \<^verbatim>\<open>\d\<close> in a \<^verbatim>\<open>str\<close> pattern is any character of Unicode category Nd; the ranges
  are those of the Unicode Character Database 14.0 (CPython 3.11).
\<close>

definition nd_ranges :: "(uchar \<times> uchar) list" where
  "nd_ranges =
    [(0x30, 0x39), (0x660, 0x669), (0x6F0, 0x6F9), (0x7C0, 0x7C9),
     (0x966, 0x96F), (0x9E6, 0x9EF), (0xA66, 0xA6F), (0xAE6, 0xAEF),
     (0xB66, 0xB6F), (0xBE6, 0xBEF), (0xC66, 0xC6F), (0xCE6, 0xCEF),
     (0xD66, 0xD6F), (0xDE6, 0xDEF), (0xE50, 0xE59), (0xED0, 0xED9),
     (0xF20, 0xF29), (0x1040, 0x1049), (0x1090, 0x1099), (0x17E0, 0x17E9),
     (0x1810, 0x1819), (0x1946, 0x194F), (0x19D0, 0x19D9), (0x1A80, 0x1A89),
     (0x1A90, 0x1A99), (0x1B50, 0x1B59), (0x1BB0, 0x1BB9), (0x1C40, 0x1C49),
     (0x1C50, 0x1C59), (0xA620, 0xA629), (0xA8D0, 0xA8D9), (0xA900, 0xA909),
     (0xA9D0, 0xA9D9), (0xA9F0, 0xA9F9), (0xAA50, 0xAA59), (0xABF0, 0xABF9),
     (0xFF10, 0xFF19), (0x104A0, 0x104A9), (0x10D30, 0x10D39), (0x11066, 0x1106F),
     (0x110F0, 0x110F9), (0x11136, 0x1113F), (0x111D0, 0x111D9), (0x112F0, 0x112F9),
     (0x11450, 0x11459), (0x114D0, 0x114D9), (0x11650, 0x11659), (0x116C0, 0x116C9),
     (0x11730, 0x11739), (0x118E0, 0x118E9), (0x11950, 0x11959), (0x11C50, 0x11C59),
     (0x11D50, 0x11D59), (0x11DA0, 0x11DA9), (0x16A60, 0x16A69), (0x16AC0, 0x16AC9),
     (0x16B50, 0x16B59), (0x1D7CE, 0x1D7FF), (0x1E140, 0x1E149), (0x1E2F0, 0x1E2F9),
     (0x1E950, 0x1E959), (0x1FBF0, 0x1FBF9)]"

definition is_decimal :: "uchar \<Rightarrow> bool" where
  "is_decimal c = list_ex (\<lambda>(lo, hi). lo \<le> c \<and> c \<le> hi) nd_ranges"

text \<open>
  \<^verbatim>\<open>\s\<close> and \<^verbatim>\<open>str.strip()\<close> use the same test, \<^verbatim>\<open>str.isspace\<close>.
\<close>

definition is_space :: "uchar \<Rightarrow> bool" where
  "is_space c =
    ((0x09 \<le> c \<and> c \<le> 0x0D) \<or> (0x1C \<le> c \<and> c \<le> 0x20) \<or> c = 0x85 \<or> c = 0xA0
      \<or> c = 0x1680 \<or> (0x2000 \<le> c \<and> c \<le> 0x200A) \<or> c = 0x2028 \<or> c = 0x2029
      \<or> c = 0x202F \<or> c = 0x205F \<or> c = 0x3000)"

text \<open>\<^verbatim>\<open>s.strip()\<close>: whitespace removed at both ends.\<close>

definition py_strip :: "ustring \<Rightarrow> ustring" where
  "py_strip s = rev (dropWhile is_space (rev (dropWhile is_space s)))"

text \<open>\<^verbatim>\<open>sep.join(parts)\<close>.\<close>

fun str_join :: "ustring \<Rightarrow> ustring list \<Rightarrow> ustring" where
  "str_join sep [] = []"
| "str_join sep [p] = p"
| "str_join sep (p # q # ps) = p @ sep @ str_join sep (q # ps)"

text \<open>
  \<^verbatim>\<open>s.replace(old, new)\<close>: the occurrences of \<open>old\<close> are replaced from left to right
  without overlap; an empty \<open>old\<close> matches before every character and at the end.
\<close>

fun str_replace :: "ustring \<Rightarrow> ustring \<Rightarrow> ustring \<Rightarrow> ustring" where
  "str_replace old new [] = (if old = [] then new else [])"
| "str_replace old new (c # cs) =
     (if old = [] then new @ c # str_replace old new cs
      else if prefix old (c # cs) then new @ str_replace old new (drop (length old - 1) cs)
      else c # str_replace old new cs)"

section \<open>Regular expressions\<close>

text \<open>
  The fragment of Python's \<^verbatim>\<open>re\<close> that the patterns of the program use: a character
  or character class, a greedy \<^verbatim>\<open>+\<close> on a class, concatenation and a greedy \<^verbatim>\<open>?\<close> on a
  group. \<open>rests r s\<close> lists what is left of \<open>s\<close> after each way of matching \<open>r\<close> at its
  start, in the order in which the backtracking matcher tries them; the match that
  \<^verbatim>\<open>re\<close> reports is the first one.
\<close>

datatype cclass = Ch uchar | Range uchar uchar | Digit | Space

fun in_class :: "cclass \<Rightarrow> uchar \<Rightarrow> bool" where
  "in_class (Ch a) c = (c = a)"
| "in_class (Range lo hi) c = (lo \<le> c \<and> c \<le> hi)"
| "in_class Digit c = is_decimal c"
| "in_class Space c = is_space c"

datatype rx = Atom cclass | Plus cclass | Seq rx rx | Opt rx

fun plus_rests :: "cclass \<Rightarrow> ustring \<Rightarrow> ustring list" where
  "plus_rests k [] = []"
| "plus_rests k (c # cs) = (if in_class k c then plus_rests k cs @ [cs] else [])"

fun rests :: "rx \<Rightarrow> ustring \<Rightarrow> ustring list" where
  "rests (Atom k) s = (case s of [] \<Rightarrow> [] | c # cs \<Rightarrow> if in_class k c then [cs] else [])"
| "rests (Plus k) s = plus_rests k s"
| "rests (Seq a b) s = concat (map (rests b) (rests a s))"
| "rests (Opt a) s = rests a s @ [s]"

text \<open>
  One attempt of the matcher at the start of \<open>s\<close>. With \<open>must_advance\<close> the empty match
  is refused, which is how \<^verbatim>\<open>re\<close> avoids reporting an empty match twice.
\<close>

definition first_rest :: "rx \<Rightarrow> bool \<Rightarrow> ustring \<Rightarrow> ustring option" where
  "first_rest r must_advance s = find (\<lambda>t. \<not> must_advance \<or> t \<noteq> s) (rests r s)"

text \<open>\<^verbatim>\<open>re.match(r, s)\<close>: the text matched at the start of \<open>s\<close>, or \<open>None\<close>.\<close>

definition re_match :: "rx \<Rightarrow> ustring \<Rightarrow> ustring option" where
  "re_match r s = map_option (\<lambda>t. take (length s - length t) s) (first_rest r False s)"

lemma find_SomeD: "find P xs = Some x \<Longrightarrow> x \<in> set xs \<and> P x"
  by (induction xs) (auto split: if_splits)

lemma suffix_neq_shorter: "suffix t s \<Longrightarrow> t \<noteq> s \<Longrightarrow> length t < length s"
  by (auto simp: suffix_def)

lemma plus_rests_shorter: "t \<in> set (plus_rests k s) \<Longrightarrow> suffix t s \<and> length t < length s"
proof (induction s)
  case Nil
  then show ?case by simp
next
  case (Cons c cs)
  then show ?case
    by (auto split: if_splits simp: suffix_Cons)
qed

lemma rests_suffix: "t \<in> set (rests r s) \<Longrightarrow> suffix t s"
proof (induction r arbitrary: s t)
  case (Atom k)
  then show ?case by (auto split: list.splits if_splits simp: suffix_Cons)
next
  case (Plus k)
  then show ?case using plus_rests_shorter by auto
next
  case (Seq a b)
  then obtain u where "u \<in> set (rests a s)" "t \<in> set (rests b u)" by auto
  with Seq.IH show ?case using suffix_order.trans by blast
next
  case (Opt a)
  then show ?case by auto
qed

lemma first_rest_suffix: "first_rest r adv s = Some t \<Longrightarrow> suffix t s"
  unfolding first_rest_def by (auto dest: find_SomeD intro: rests_suffix)

text \<open>
  The scan shared by \<^verbatim>\<open>findall\<close> and \<^verbatim>\<open>sub\<close>: the leftmost match is looked for from
  the current position, the scan goes on from the end of that match, and after an
  empty match the next one at the same position has to advance.
\<close>

datatype piece = Skipped uchar | Matched ustring

function scan :: "rx \<Rightarrow> bool \<Rightarrow> ustring \<Rightarrow> piece list" where
  "scan r adv s =
     (case first_rest r adv s of
        Some t \<Rightarrow> Matched (take (length s - length t) s)
                    # (if t = s then scan r True s else scan r False t)
      | None \<Rightarrow> (case s of [] \<Rightarrow> [] | c # cs \<Rightarrow> Skipped c # scan r False cs))"
  by pat_completeness auto
termination
proof (relation "measure (\<lambda>(r, adv, s). 2 * length s + (if adv then 0 else 1))")
  show "wf (measure (\<lambda>(r, adv, s). 2 * length s + (if adv then 0 else 1)))" by simp
next
  fix r adv s t
  assume "first_rest r adv s = Some t" "t = s"
  then have "\<not> adv" unfolding first_rest_def by (auto dest: find_SomeD)
  then show "((r, True, s), (r, adv, s))
      \<in> measure (\<lambda>(r, adv, s). 2 * length s + (if adv then 0 else 1))"
    by simp
next
  fix r adv s t
  assume a: "first_rest r adv s = Some t" "t \<noteq> s"
  then have "suffix t s" by (auto dest: first_rest_suffix)
  with a have "length t < length s" by (simp add: suffix_neq_shorter)
  then show "((r, False, t), (r, adv, s))
      \<in> measure (\<lambda>(r, adv, s). 2 * length s + (if adv then 0 else 1))"
    by simp
next
  fix r adv s c cs
  assume "s = c # cs"
  then show "((r, False, cs), (r, adv, s))
      \<in> measure (\<lambda>(r, adv, s). 2 * length s + (if adv then 0 else 1))"
    by simp
qed

declare scan.simps [simp del]

text \<open>\<^verbatim>\<open>re.findall(r, s)\<close> for a pattern without groups: the matched texts.\<close>

definition re_findall :: "rx \<Rightarrow> ustring \<Rightarrow> ustring list" where
  "re_findall r s = concat (map (\<lambda>p. case p of Skipped c \<Rightarrow> [] | Matched m \<Rightarrow> [m]) (scan r False s))"

text \<open>\<^verbatim>\<open>re.sub(r, repl, s)\<close> for a replacement without escapes.\<close>

definition re_sub :: "rx \<Rightarrow> ustring \<Rightarrow> ustring \<Rightarrow> ustring" where
  "re_sub r repl s = concat (map (\<lambda>p. case p of Skipped c \<Rightarrow> [c] | Matched m \<Rightarrow> repl) (scan r False s))"

section \<open>The program\<close>

subsection \<open>\<^verbatim>\<open>clean_text\<close> and \<^verbatim>\<open>get_relation_parts\<close>\<close>

definition circled_numeral :: rx where
  "circled_numeral = Atom (Range 0x2460 0x2473)"

definition whitespace_run :: rx where
  "whitespace_run = Plus Space"

definition clean_text :: "ustring \<Rightarrow> ustring" where
  "clean_text text0 =
     (let text1 = str_replace [0x0A] [0x20] text0;
          text2 = re_sub circled_numeral [] text1;
          text3 = re_sub whitespace_run [0x20] text2
      in text3)"

text \<open>
  The pattern of \<^verbatim>\<open>get_relation_parts\<close>: \<open>c_je\<close>, digits, \<open>c_jo\<close>, then optionally
  \<open>c_ui\<close> and digits, then optionally \<open>c_je\<close>, digits and \<open>c_hang\<close>.
\<close>

definition relation_part_pattern :: rx where
  "relation_part_pattern =
     Seq (Atom (Ch c_je)) (Seq (Plus Digit) (Seq (Atom (Ch c_jo))
       (Seq (Opt (Seq (Atom (Ch c_ui)) (Plus Digit)))
            (Opt (Seq (Atom (Ch c_je)) (Seq (Plus Digit) (Atom (Ch c_hang))))))))"

text \<open>The loop of \<^verbatim>\<open>get_relation_parts\<close> appends every match to a fresh list.\<close>

fun append_matches :: "ustring list \<Rightarrow> ustring list \<Rightarrow> ustring list" where
  "append_matches relation_parts [] = relation_parts"
| "append_matches relation_parts (m # matches) = append_matches (relation_parts @ [m]) matches"

definition get_relation_parts :: "ustring \<Rightarrow> ustring list" where
  "get_relation_parts text0 =
     (let matches = re_findall relation_part_pattern text0
      in append_matches [] matches)"

subsection \<open>Document nodes\<close>

text \<open>
  What the program reads of a \<^verbatim>\<open><p>\<close> element of BeautifulSoup: its attributes and
  the text strings below it, in document order. \<^verbatim>\<open>get_text\<close> joins the strings with
  the separator; with \<^verbatim>\<open>strip=True\<close> every string is stripped first and the empty
  ones are left out. \<^verbatim>\<open>tag.get(key, default)\<close> reads an attribute.
\<close>

record Tag =
  attrs :: "ustring \<rightharpoonup> ustring"
  strings :: "ustring list"

definition all_strings :: "bool \<Rightarrow> Tag \<Rightarrow> ustring list" where
  "all_strings strip tag =
     (if strip then filter (\<lambda>s. length s \<noteq> 0) (map py_strip (strings tag))
      else strings tag)"

definition get_text :: "ustring \<Rightarrow> bool \<Rightarrow> Tag \<Rightarrow> ustring" where
  "get_text separator strip tag = str_join separator (all_strings strip tag)"

definition tag_get :: "Tag \<Rightarrow> ustring \<Rightarrow> ustring \<Rightarrow> ustring" where
  "tag_get tag key dflt = (case attrs tag key of None \<Rightarrow> dflt | Some v \<Rightarrow> v)"

subsection \<open>Errors and list access\<close>

datatype py_error = IndexError | AttributeError

text \<open>\<^verbatim>\<open>xs[i]\<close>: a negative index counts from the end, an index out of range raises.\<close>

definition py_index :: "'a list \<Rightarrow> int \<Rightarrow> py_error + 'a" where
  "py_index xs i =
     (if 0 \<le> i \<and> i < int (length xs) then Inr (xs ! nat i)
      else if i < 0 \<and> - int (length xs) \<le> i then Inr (xs ! nat (int (length xs) + i))
      else Inl IndexError)"

text \<open>\<^verbatim>\<open>xs[lo:hi]\<close> and \<^verbatim>\<open>xs[lo:]\<close> for indices that are not negative: never an error.\<close>

definition py_slice :: "'a list \<Rightarrow> nat \<Rightarrow> nat \<Rightarrow> 'a list" where
  "py_slice xs lo hi = drop lo (take hi xs)"

definition py_slice_from :: "'a list \<Rightarrow> nat \<Rightarrow> 'a list" where
  "py_slice_from xs lo = drop lo xs"

definition bind_err :: "py_error + 'a \<Rightarrow> ('a \<Rightarrow> py_error + 'b) \<Rightarrow> py_error + 'b" where
  "bind_err m f = (case m of Inl e \<Rightarrow> Inl e | Inr v \<Rightarrow> f v)"

subsection \<open>\<^verbatim>\<open>parse_html_by_article_sections\<close>\<close>

record ArticleChunk =
  article_id :: ustring
  start_id :: ustring
  end_id :: ustring
  content :: ustring
  paragraph_ids :: "ustring list"
  relation_parts :: "ustring list"

text \<open>
  The pattern of the first loop. \<^verbatim>\<open>re.match\<close> tries the start of the text only, where
  \<^verbatim>\<open>^\<close> holds; in the second call the one group encloses the whole pattern, so
  \<^verbatim>\<open>group(1)\<close> is the matched text. \<^verbatim>\<open>group\<close> on \<^verbatim>\<open>None\<close> is an AttributeError.
\<close>

definition article_start_pattern :: rx where
  "article_start_pattern =
     Seq (Atom (Ch c_je)) (Seq (Plus Digit) (Seq (Atom (Ch c_jo))
       (Opt (Seq (Atom (Ch c_ui)) (Plus Digit)))))"

definition group1 :: "ustring option \<Rightarrow> py_error + ustring" where
  "group1 m = (case m of None \<Rightarrow> Inl AttributeError | Some g \<Rightarrow> Inr g)"

text \<open>The first loop, over \<^verbatim>\<open>enumerate(all_p_tags)\<close> from index \<open>i\<close> on.\<close>

fun find_article_indices :: "nat \<Rightarrow> Tag list \<Rightarrow> py_error + (nat \<times> ustring) list" where
  "find_article_indices i [] = Inr []"
| "find_article_indices i (tag # tags) =
     (let text0 = get_text [] True tag in
      if re_match article_start_pattern text0 \<noteq> None then
        bind_err (group1 (re_match article_start_pattern text0)) (\<lambda>aid.
        bind_err (find_article_indices (i + 1) tags) (\<lambda>article_indices.
        Inr ((i, aid) # article_indices)))
      else find_article_indices (i + 1) tags)"

text \<open>The inner loop over the tags of one chunk, with its three growing lists.\<close>

fun collect_span ::
  "Tag list \<Rightarrow> ustring list \<times> ustring list \<times> ustring list
    \<Rightarrow> ustring list \<times> ustring list \<times> ustring list" where
  "collect_span [] acc = acc"
| "collect_span (tag # tags) (content_parts, id_list, rel_parts) =
     (let content0 = str_replace (ascii ''<br />'') [] (get_text (ascii '' '') True tag);
          clean_content = clean_text content0
      in collect_span tags
           (content_parts @ [content0],
            id_list @ [tag_get tag (ascii ''id'') (ascii ''unknown'')],
            rel_parts @ get_relation_parts clean_content))"

text \<open>The body of the second loop for the entry \<open>(start_idx, aid)\<close> at position \<open>idx\<close>.\<close>

definition make_chunk ::
  "Tag list \<Rightarrow> (nat \<times> ustring) list \<Rightarrow> nat \<Rightarrow> nat \<times> ustring \<Rightarrow> py_error + ArticleChunk" where
  "make_chunk all_p_tags article_indices idx entry =
     (case entry of (start_idx, aid) \<Rightarrow>
        bind_err (if idx + 1 < length article_indices
                  then bind_err (py_index article_indices (int idx + 1)) (\<lambda>nxt. Inr (fst nxt))
                  else Inr (length all_p_tags)) (\<lambda>end_idx.
        case collect_span (py_slice all_p_tags start_idx end_idx) ([], [], []) of
          (content_parts, id_list, rel_parts) \<Rightarrow>
            bind_err (py_index all_p_tags (int start_idx)) (\<lambda>first_tag.
            bind_err (py_index all_p_tags (int end_idx - 1)) (\<lambda>last_tag.
            Inr \<lparr>article_id = aid,
                 start_id = tag_get first_tag (ascii ''id'') (ascii ''unknown''),
                 end_id = tag_get last_tag (ascii ''id'') (ascii ''unknown''),
                 content = str_join [0x0A] content_parts,
                 paragraph_ids = id_list,
                 relation_parts = py_slice_from rel_parts 1\<rparr>))))"

text \<open>The second loop, over \<^verbatim>\<open>enumerate(article_indices)\<close> from position \<open>idx\<close> on.\<close>

fun build_chunks ::
  "Tag list \<Rightarrow> (nat \<times> ustring) list \<Rightarrow> nat \<Rightarrow> (nat \<times> ustring) list
    \<Rightarrow> py_error + ArticleChunk list" where
  "build_chunks all_p_tags article_indices idx [] = Inr []"
| "build_chunks all_p_tags article_indices idx (entry # entries) =
     bind_err (make_chunk all_p_tags article_indices idx entry) (\<lambda>chunk.
     bind_err (build_chunks all_p_tags article_indices (idx + 1) entries) (\<lambda>chunks.
     Inr (chunk # chunks)))"

definition parse_html_by_article_sections :: "Tag list \<Rightarrow> py_error + ArticleChunk list" where
  "parse_html_by_article_sections all_p_tags =
     bind_err (find_article_indices 0 all_p_tags) (\<lambda>article_indices.
     build_chunks all_p_tags article_indices 0 article_indices)"

section \<open>Markers and spans\<close>

text \<open>
  The notions the properties are stated with. A node is an article start when the test
  of the first loop succeeds on it; the markers of a document are the positions of such
  nodes; the span of the \<open>k\<close>-th marker runs from it up to the next marker, or to the end
  of the document for the last one. \<open>node_id\<close>, \<open>node_content\<close> and \<open>node_refs\<close> are what
  the inner loop records for one node.
\<close>

definition node_id :: "Tag \<Rightarrow> ustring" where
  "node_id tag = tag_get tag (ascii ''id'') (ascii ''unknown'')"

definition node_content :: "Tag \<Rightarrow> ustring" where
  "node_content tag = str_replace (ascii ''<br />'') [] (get_text (ascii '' '') True tag)"

definition node_refs :: "Tag \<Rightarrow> ustring list" where
  "node_refs tag = get_relation_parts (clean_text (node_content tag))"

definition is_article_start :: "Tag \<Rightarrow> bool" where
  "is_article_start tag = (re_match article_start_pattern (get_text [] True tag) \<noteq> None)"

definition article_label :: "Tag \<Rightarrow> ustring" where
  "article_label tag = the (re_match article_start_pattern (get_text [] True tag))"

definition marker_positions :: "Tag list \<Rightarrow> nat list" where
  "marker_positions tags = filter (\<lambda>i. is_article_start (tags ! i)) [0..<length tags]"

definition span_end :: "Tag list \<Rightarrow> nat \<Rightarrow> nat" where
  "span_end tags k =
     (if k + 1 < length (marker_positions tags) then marker_positions tags ! (k + 1)
      else length tags)"

definition span :: "Tag list \<Rightarrow> nat \<Rightarrow> Tag list" where
  "span tags k = map (nth tags) [marker_positions tags ! k..<span_end tags k]"

definition expected_chunk :: "Tag list \<Rightarrow> nat \<Rightarrow> ArticleChunk" where
  "expected_chunk tags k =
     \<lparr>article_id = article_label (tags ! (marker_positions tags ! k)),
      start_id = node_id (tags ! (marker_positions tags ! k)),
      end_id = node_id (tags ! (span_end tags k - 1)),
      content = str_join [0x0A] (map node_content (span tags k)),
      paragraph_ids = map node_id (span tags k),
      relation_parts = drop 1 (concat (map node_refs (span tags k)))\<rparr>"

section \<open>An example document\<close>

text \<open>
  Four nodes: a heading without identifier, the start of article 1 (identifier p1), a
  body node without identifier that refers to article 2 paragraph 3, and the start of
  article 2 (identifier p3).
\<close>

definition ex_plain :: Tag where
  "ex_plain = \<lparr>attrs = Map.empty, strings = [[0x41]]\<rparr>"
definition ex_art1 :: Tag where
  "ex_art1 = \<lparr>attrs = [ascii ''id'' \<mapsto> ascii ''p1''], strings = [[c_je, 0x31, c_jo, 0x20, 0x42]]\<rparr>"
definition ex_body :: Tag where
  "ex_body = \<lparr>attrs = Map.empty, strings = [[0x43, c_je, 0x32, c_jo, c_je, 0x33, c_hang]]\<rparr>"
definition ex_art2 :: Tag where
  "ex_art2 = \<lparr>attrs = [ascii ''id'' \<mapsto> ascii ''p3''], strings = [[c_je, 0x32, c_jo]]\<rparr>"
definition ex_doc :: "Tag list" where
  "ex_doc = [ex_plain, ex_art1, ex_body, ex_art2]"

text \<open>
  Two article starts whose label is split over two text strings: the stripped text
  joins them without separator, the content joins them with a space.
\<close>

definition ex_split :: Tag where
  "ex_split = \<lparr>attrs = Map.empty, strings = [[c_je], [0x31, c_jo, c_je, 0x32, c_jo]]\<rparr>"
definition ex_bare :: Tag where
  "ex_bare = \<lparr>attrs = Map.empty, strings = [[c_je], [0x31, c_jo]]\<rparr>"

section \<open>Notions of the properties: normalisation and references\<close>

text \<open>
  \<open>squeeze P repl\<close> replaces every maximal run of characters with \<open>P\<close> by \<open>repl\<close>: the direct
  form of \<^verbatim>\<open>re.sub\<close> with a \<^verbatim>\<open>+\<close> pattern on a class, used in the proofs only.
\<close>

function squeeze :: "(uchar \<Rightarrow> bool) \<Rightarrow> ustring \<Rightarrow> ustring \<Rightarrow> ustring" where
  "squeeze P repl [] = []"
| "squeeze P repl (c # cs) =
     (if P c then repl @ squeeze P repl (dropWhile P cs) else c # squeeze P repl cs)"
  by pat_completeness auto
termination
  by (relation "measure (\<lambda>(P, repl, s). length s)")
     (auto simp: length_dropWhile_le less_Suc_eq_le)

text \<open>
  The reference convention in the words of the specification: a number is a non-empty
  run of decimal digits; a reference is \<open>c_je\<close>, a number and \<open>c_jo\<close> (the article),
  optionally followed by \<open>c_ui\<close> and a number (the sub-article), optionally followed by
  \<open>c_je\<close>, a number and \<open>c_hang\<close> (the paragraph). \<open>lang r\<close> is the set of the texts that a
  pattern matches as a whole.
\<close>

definition number :: "ustring \<Rightarrow> bool" where
  "number ds \<longleftrightarrow> ds \<noteq> [] \<and> (\<forall>d\<in>set ds. is_decimal d)"

definition ref_token :: "ustring \<Rightarrow> bool" where
  "ref_token m \<longleftrightarrow>
     (\<exists>n1 sub par. number n1
        \<and> (sub = [] \<or> (\<exists>n2. number n2 \<and> sub = c_ui # n2))
        \<and> (par = [] \<or> (\<exists>n3. number n3 \<and> par = c_je # n3 @ [c_hang]))
        \<and> m = c_je # n1 @ [c_jo] @ sub @ par)"

fun lang :: "rx \<Rightarrow> ustring set" where
  "lang (Atom k) = {[c] | c. in_class k c}"
| "lang (Plus k) = {p. p \<noteq> [] \<and> (\<forall>c\<in>set p. in_class k c)}"
| "lang (Seq a b) = {p @ q | p q. p \<in> lang a \<and> q \<in> lang b}"
| "lang (Opt a) = insert [] (lang a)"

text \<open>
  \<open>nonoverlapping_matches L s ms\<close>: \<open>ms\<close> are the non-overlapping occurrences in \<open>s\<close> of the
  texts with \<open>L\<close>, from left to right. At a position where no text with \<open>L\<close> begins the
  scan moves on by one character; where one begins, the longest such text is the next
  match and the scan goes on behind it. \<open>sub_rx\<close>, \<open>par_rx\<close> and \<open>tail_rx\<close> name the two optional
  groups of the reference pattern and their sequence; \<open>by_length\<close> says that a list of
  rests is ordered by strictly growing length, so that its head is the longest match.
\<close>

inductive nonoverlapping_matches :: "(ustring \<Rightarrow> bool) \<Rightarrow> ustring \<Rightarrow> ustring list \<Rightarrow> bool"
  for L :: "ustring \<Rightarrow> bool" where
  at_end: "nonoverlapping_matches L [] []"
| no_match: "\<forall>p. prefix p (c # cs) \<longrightarrow> \<not> L p \<Longrightarrow> nonoverlapping_matches L cs ms
     \<Longrightarrow> nonoverlapping_matches L (c # cs) ms"
| match: "L m \<Longrightarrow> m \<noteq> [] \<Longrightarrow> \<forall>p. L p \<and> prefix p (m @ rest) \<longrightarrow> length p \<le> length m
     \<Longrightarrow> nonoverlapping_matches L rest ms
     \<Longrightarrow> nonoverlapping_matches L (m @ rest) (m # ms)"

definition sub_rx :: rx where
  "sub_rx = Seq (Atom (Ch c_ui)) (Plus Digit)"

definition par_rx :: rx where
  "par_rx = Seq (Atom (Ch c_je)) (Seq (Plus Digit) (Atom (Ch c_hang)))"

definition tail_rx :: rx where
  "tail_rx = Seq (Opt sub_rx) (Opt par_rx)"

definition by_length :: "ustring list \<Rightarrow> bool" where
  "by_length ts = sorted_wrt (\<lambda>a b. length a < length b) ts"

section \<open>The two loops\<close>

lemma bind_err_Inr [simp]: "bind_err (Inr v) f = f v"
  by (simp add: bind_err_def)

lemma collect_span_eq:
  "collect_span tags (cp, ids, rp) =
     (cp @ map node_content tags, ids @ map node_id tags, rp @ concat (map node_refs tags))"
  by (induction tags arbitrary: cp ids rp)
     (simp_all add: node_content_def node_id_def node_refs_def Let_def)

lemma marker_positions_Cons:
  "marker_positions (tag # tags) =
     (if is_article_start tag then [0] else []) @ map Suc (marker_positions tags)"
proof -
  have "[0..<length (tag # tags)] = 0 # map Suc [0..<length tags]"
    by (simp add: upt_conv_Cons map_Suc_upt del: upt_Suc)
  then show ?thesis
    by (simp add: marker_positions_def filter_map comp_def del: upt_Suc)
qed

lemma find_article_indices_eq:
  "find_article_indices i tags =
     Inr (map (\<lambda>j. (i + j, article_label (tags ! j))) (marker_positions tags))"
proof (induction tags arbitrary: i)
  case Nil
  then show ?case by (simp add: marker_positions_def)
next
  case (Cons tag tags)
  show ?case
  proof (cases "is_article_start tag")
    case True
    then obtain g where g: "re_match article_start_pattern (get_text [] True tag) = Some g"
      by (auto simp: is_article_start_def)
    then show ?thesis using True
      by (simp add: Cons.IH marker_positions_Cons group1_def article_label_def comp_def)
  next
    case False
    then show ?thesis
      by (simp add: Cons.IH marker_positions_Cons is_article_start_def comp_def)
  qed
qed

lemma marker_positions_sorted: "sorted_wrt (<) (marker_positions tags)"
  unfolding marker_positions_def by (rule sorted_wrt_filter) simp

lemma marker_positions_bound: "k < length (marker_positions tags) \<Longrightarrow> marker_positions tags ! k < length tags"
proof -
  assume "k < length (marker_positions tags)"
  then have "marker_positions tags ! k \<in> set (marker_positions tags)" by simp
  then show ?thesis by (simp add: marker_positions_def)
qed

lemma marker_lt_span_end:
  assumes "k < length (marker_positions tags)"
  shows "marker_positions tags ! k < span_end tags k" and "span_end tags k \<le> length tags"
proof -
  show "marker_positions tags ! k < span_end tags k"
  proof (cases "k + 1 < length (marker_positions tags)")
    case True
    then show ?thesis
      using marker_positions_sorted [of tags]
      by (simp add: span_end_def sorted_wrt_iff_nth_less)
  next
    case False
    then show ?thesis using assms by (simp add: span_end_def marker_positions_bound)
  qed
  show "span_end tags k \<le> length tags"
    using marker_positions_bound [of "k + 1" tags]
    by (auto simp: span_end_def intro: less_imp_le)
qed

lemma py_index_nat: "i < length xs \<Longrightarrow> py_index xs (int i) = Inr (xs ! i)"
  by (simp add: py_index_def)

lemma py_slice_nth: "hi \<le> length xs \<Longrightarrow> py_slice xs lo hi = map (nth xs) [lo..<hi]"
  by (simp add: py_slice_def list_eq_iff_nth_eq)

lemma make_chunk_eq:
  assumes ai: "ai = map (\<lambda>j. (j, article_label (tags ! j))) (marker_positions tags)"
    and k: "k < length (marker_positions tags)"
  shows "make_chunk tags ai k (ai ! k) = Inr (expected_chunk tags k)"
proof -
  let ?ms = "marker_positions tags"
  have start: "?ms ! k < length tags" using k by (rule marker_positions_bound)
  have lt: "?ms ! k < span_end tags k" and le: "span_end tags k \<le> length tags"
    using marker_lt_span_end [OF k] by simp_all
  have e: "(if k + 1 < length ai
            then bind_err (py_index ai (int k + 1)) (\<lambda>nxt. Inr (fst nxt))
            else Inr (length tags)) = Inr (span_end tags k)"
  proof (cases "k + 1 < length ai")
    case True
    then have "py_index ai (int k + 1) = Inr (ai ! (k + 1))"
      using py_index_nat [of "k + 1" ai] by (simp add: add.commute)
    with True show ?thesis by (simp add: ai span_end_def)
  next
    case False
    then show ?thesis by (simp add: ai span_end_def)
  qed
  have sl: "py_slice tags (?ms ! k) (span_end tags k) = span tags k"
    using le by (simp add: py_slice_nth span_def)
  have i1: "py_index tags (int (?ms ! k)) = Inr (tags ! (?ms ! k))"
    using start by (rule py_index_nat)
  have "nat (int (span_end tags k) - 1) = span_end tags k - 1" by simp
  moreover have "0 \<le> int (span_end tags k) - 1" using lt by simp
  moreover have "int (span_end tags k) - 1 < int (length tags)" using lt le by simp
  ultimately have i2: "py_index tags (int (span_end tags k) - 1) = Inr (tags ! (span_end tags k - 1))"
    unfolding py_index_def by (simp only: simp_thms if_True)
  have aik: "ai ! k = (?ms ! k, article_label (tags ! (?ms ! k)))" using k by (simp add: ai)
  have "make_chunk tags ai k (ai ! k) =
      (case collect_span (span tags k) ([], [], []) of
        (content_parts, id_list, rel_parts) \<Rightarrow>
          Inr \<lparr>article_id = article_label (tags ! (?ms ! k)),
               start_id = tag_get (tags ! (?ms ! k)) (ascii ''id'') (ascii ''unknown''),
               end_id = tag_get (tags ! (span_end tags k - 1)) (ascii ''id'') (ascii ''unknown''),
               content = str_join [0x0A] content_parts,
               paragraph_ids = id_list,
               relation_parts = py_slice_from rel_parts 1\<rparr>)"
    by (simp only: make_chunk_def aik prod.case e bind_err_Inr sl i1 i2)
  then show ?thesis
    by (simp add: collect_span_eq expected_chunk_def py_slice_from_def node_id_def)
qed

lemma build_chunks_eq:
  assumes ai: "ai = map (\<lambda>j. (j, article_label (tags ! j))) (marker_positions tags)"
  shows "idx \<le> length ai \<Longrightarrow> entries = drop idx ai \<Longrightarrow>
         build_chunks tags ai idx entries = Inr (map (expected_chunk tags) [idx..<length ai])"
proof (induction entries arbitrary: idx)
  case Nil
  then show ?case by simp
next
  case (Cons entry entries)
  from Cons.prems have lt: "idx < length ai" by (cases "idx < length ai") auto
  with Cons.prems have entry: "entry = ai ! idx" and rest: "entries = drop (idx + 1) ai"
    by (simp_all add: Cons_nth_drop_Suc [symmetric])
  have k: "idx < length (marker_positions tags)" using lt by (simp add: ai)
  have "build_chunks tags ai (idx + 1) entries = Inr (map (expected_chunk tags) [idx + 1..<length ai])"
    using lt rest by (intro Cons.IH) simp_all
  then show ?case
    using lt by (simp add: entry make_chunk_eq [OF ai k] upt_conv_Cons)
qed

lemma parse_eq:
  "parse_html_by_article_sections tags =
     Inr (map (expected_chunk tags) [0..<length (marker_positions tags)])"
proof -
  let ?ai = "map (\<lambda>j. (j, article_label (tags ! j))) (marker_positions tags)"
  have "find_article_indices 0 tags = Inr ?ai" by (simp add: find_article_indices_eq)
  moreover have "build_chunks tags ?ai 0 ?ai = Inr (map (expected_chunk tags) [0..<length ?ai])"
    by (rule build_chunks_eq) simp_all
  ultimately show ?thesis by (simp add: parse_html_by_article_sections_def)
qed

section \<open>The example document, evaluated\<close>

lemmas char_simps = c_je_def c_jo_def c_ui_def c_hang_def is_decimal_def nd_ranges_def is_space_def
lemmas match_simps = re_match_def first_rest_def article_start_pattern_def relation_part_pattern_def
lemmas text_simps = get_text_def all_strings_def py_strip_def ascii_def

lemma ex_starts:
  "\<not> is_article_start ex_plain" "is_article_start ex_art1"
  "\<not> is_article_start ex_body" "is_article_start ex_art2"
  by (simp_all add: is_article_start_def ex_plain_def ex_art1_def ex_body_def ex_art2_def
      char_simps match_simps text_simps)

lemma ex_markers: "marker_positions ex_doc = [1, 3]"
  by (simp add: ex_doc_def marker_positions_Cons ex_starts marker_positions_def)

lemma ex_ids: "node_id ex_plain = ascii ''unknown''" "node_id ex_art1 = ascii ''p1''"
  "node_id ex_body = ascii ''unknown''" "node_id ex_art2 = ascii ''p3''"
  by (simp_all add: node_id_def tag_get_def ex_plain_def ex_art1_def ex_body_def ex_art2_def ascii_def)

lemma ex_spans: "span ex_doc 0 = [ex_art1, ex_body]" "span ex_doc (Suc 0) = [ex_art2]"
  by (simp_all add: span_def span_end_def ex_markers upt_conv_Cons) (simp_all add: ex_doc_def)

section \<open>The spans partition the document\<close>

lemma upt_append_upt: "a \<le> b \<Longrightarrow> b \<le> c \<Longrightarrow> [a..<b] @ [b..<c] = [a..<c]"
  by (metis le_Suc_ex upt_add_eq_append)

lemma no_marker_prefix:
  "marker_positions tags = [] \<Longrightarrow> takeWhile (\<lambda>t. \<not> is_article_start t) tags = tags"
  by (induction tags) (auto simp: marker_positions_Cons split: if_splits)

lemma first_marker_prefix:
  "marker_positions tags \<noteq> [] \<Longrightarrow>
   marker_positions tags ! 0 = length (takeWhile (\<lambda>t. \<not> is_article_start t) tags)"
proof (induction tags)
  case Nil
  then show ?case by (simp add: marker_positions_def)
next
  case (Cons tag tags)
  show ?case
  proof (cases "is_article_start tag")
    case True
    then show ?thesis by (simp add: marker_positions_Cons)
  next
    case False
    with Cons.prems have ne: "marker_positions tags \<noteq> []"
      by (simp add: marker_positions_Cons)
    then have "0 < length (marker_positions tags)" by simp
    with False Cons.IH [OF ne] show ?thesis
      by (simp add: marker_positions_Cons)
  qed
qed

lemma marker_positions_mono:
  "i \<le> j \<Longrightarrow> j < length (marker_positions tags) \<Longrightarrow>
   marker_positions tags ! i \<le> marker_positions tags ! j"
  using marker_positions_sorted [of tags]
  by (cases "i = j") (auto simp: sorted_wrt_iff_nth_less intro: less_imp_le)

lemma span_indices_upto:
  "j < length (marker_positions tags) \<Longrightarrow>
   concat (map (\<lambda>k. [marker_positions tags ! k..<span_end tags k]) [0..<j])
     = [marker_positions tags ! 0..<marker_positions tags ! j]"
proof (induction j)
  case 0
  then show ?case by simp
next
  case (Suc j)
  then have e: "span_end tags j = marker_positions tags ! Suc j" by (simp add: span_end_def)
  have "marker_positions tags ! 0 \<le> marker_positions tags ! j"
    using Suc.prems by (intro marker_positions_mono) simp_all
  moreover have "marker_positions tags ! j \<le> marker_positions tags ! Suc j"
    using Suc.prems by (intro marker_positions_mono) simp_all
  ultimately show ?case using Suc by (simp add: e upt_append_upt)
qed

lemma span_indices_partition:
  "[0..<length (takeWhile (\<lambda>t. \<not> is_article_start t) tags)]
     @ concat (map (\<lambda>k. [marker_positions tags ! k..<span_end tags k])
                [0..<length (marker_positions tags)])
   = [0..<length tags]"
proof (cases "marker_positions tags = []")
  case True
  then show ?thesis by (simp add: no_marker_prefix)
next
  case False
  let ?ms = "marker_positions tags"
  let ?p = "takeWhile (\<lambda>t. \<not> is_article_start t) tags"
  define n where "n = length ?ms - 1"
  have n: "n < length ?ms" "length ?ms = Suc n" using False by (simp_all add: n_def)
  have last: "span_end tags n = length tags" using n by (simp add: span_end_def)
  have a: "?ms ! 0 \<le> ?ms ! n" using marker_positions_mono [of 0 n tags] n(1) by simp
  have b: "?ms ! n \<le> length tags" using marker_positions_bound [OF n(1)] by simp
  have c: "concat (map (\<lambda>k. [?ms ! k..<span_end tags k]) [0..<length ?ms])
      = [?ms ! 0..<?ms ! n] @ [?ms ! n..<length tags]"
    using span_indices_upto [OF n(1)] by (simp add: n(2) last)
  have d: "[?ms ! 0..<?ms ! n] @ [?ms ! n..<length tags] = [?ms ! 0..<length tags]"
    using a b by (rule upt_append_upt)
  have p: "length ?p = ?ms ! 0" using first_marker_prefix [OF False] by simp
  have e: "[0..<?ms ! 0] @ [?ms ! 0..<length tags] = [0..<length tags]"
    using a b by (intro upt_append_upt) simp_all
  show ?thesis by (simp only: p c d e)
qed

lemma spans_partition:
  "takeWhile (\<lambda>t. \<not> is_article_start t) tags
     @ concat (map (span tags) [0..<length (marker_positions tags)]) = tags"
proof -
  let ?p = "takeWhile (\<lambda>t. \<not> is_article_start t) tags"
  let ?idx = "concat (map (\<lambda>k. [marker_positions tags ! k..<span_end tags k])
                [0..<length (marker_positions tags)])"
  define n where "n = length ?p"
  have "n \<le> length tags" unfolding n_def by (rule length_takeWhile_le)
  then have "take n tags = map (nth tags) [0..<n]" by (simp add: list_eq_iff_nth_eq)
  moreover have "?p = take n tags" unfolding n_def by (rule takeWhile_eq_take)
  ultimately have p: "map (nth tags) [0..<n] = ?p" by simp
  have q: "map (nth tags) ?idx = concat (map (span tags) [0..<length (marker_positions tags)])"
  proof -
    have "span tags = (\<lambda>k. map (nth tags) [marker_positions tags ! k..<span_end tags k])"
      by (rule ext) (simp add: span_def)
    then show ?thesis by (simp add: map_concat comp_def)
  qed
  have "map (nth tags) ([0..<n] @ ?idx) = ?p @ concat (map (span tags) [0..<length (marker_positions tags)])"
    by (simp only: map_append p q)
  moreover have "[0..<n] @ ?idx = [0..<length tags]"
    unfolding n_def by (rule span_indices_partition)
  ultimately show ?thesis by (simp only: map_nth)
qed

lemma marker_count: "length (marker_positions tags) = length (filter is_article_start tags)"
proof (induction tags)
  case Nil
  then show ?case by (simp add: marker_positions_def)
next
  case (Cons tag tags)
  then show ?case by (simp add: marker_positions_Cons)
qed

lemmas scan_simps = clean_text_def get_relation_parts_def re_findall_def re_sub_def scan.simps
  circled_numeral_def whitespace_run_def

lemma expected_chunk_nth:
  "k < length (marker_positions tags) \<Longrightarrow>
   map (expected_chunk tags) [0..<length (marker_positions tags)] ! k = expected_chunk tags k"
  by simp

lemma span_nonempty:
  "k < length (marker_positions tags) \<Longrightarrow> span tags k \<noteq> []"
  using marker_lt_span_end(1) [of k tags] by (simp add: span_def)

lemma span_length:
  "length (span tags k) = span_end tags k - marker_positions tags ! k"
  by (simp add: span_def)

lemma span_hd_last:
  assumes "k < length (marker_positions tags)"
  shows "hd (span tags k) = tags ! (marker_positions tags ! k)"
    and "last (span tags k) = tags ! (span_end tags k - 1)"
proof -
  have lt: "marker_positions tags ! k < span_end tags k"
    using assms by (rule marker_lt_span_end(1))
  then show "hd (span tags k) = tags ! (marker_positions tags ! k)"
    by (simp add: span_def upt_conv_Cons)
  from lt obtain e where e: "span_end tags k = Suc e" "marker_positions tags ! k \<le> e"
    by (cases "span_end tags k") auto
  then show "last (span tags k) = tags ! (span_end tags k - 1)"
    by (simp add: span_def)
qed

lemma ex_refs:
  "node_refs ex_plain = []"
  "node_refs ex_art1 = [[c_je, 0x31, c_jo]]"
  "node_refs ex_body = [[c_je, 0x32, c_jo, c_je, 0x33, c_hang]]"
  "node_refs ex_art2 = [[c_je, 0x32, c_jo]]"
  by (simp_all add: node_refs_def node_content_def ex_plain_def ex_art1_def ex_body_def
      ex_art2_def text_simps scan_simps char_simps match_simps)

lemma ex_split_eval:
  "is_article_start ex_split"
  "node_refs ex_split = [[c_je, 0x32, c_jo]]"
  "is_article_start ex_bare"
  "node_refs ex_bare = []"
  by (simp_all add: is_article_start_def node_refs_def node_content_def ex_split_def ex_bare_def
      text_simps scan_simps char_simps match_simps)

section \<open>Segmentation\<close>

text \<open>
  C1. A document with N article-start nodes gives exactly N chunks. The chunk of the
  \<open>k\<close>-th marker is built from the nodes from that marker up to, and without, the next
  marker (the end of the document for the last one). The spans are not empty, follow
  one another without gap or overlap, and together with the prefix before the first
  marker they are the whole node sequence, so the prefix is in no chunk.
\<close>

theorem segment_spans:
  "\<exists>chunks. parse_html_by_article_sections tags = Inr chunks
     \<and> length chunks = length (filter is_article_start tags)
     \<and> length chunks = length (marker_positions tags)
     \<and> (\<forall>k<length chunks.
           paragraph_ids (chunks ! k) = map node_id (span tags k)
         \<and> content (chunks ! k) = str_join [0x0A] (map node_content (span tags k))
         \<and> span tags k = py_slice tags (marker_positions tags ! k) (span_end tags k)
         \<and> is_article_start (tags ! (marker_positions tags ! k))
         \<and> marker_positions tags ! k < span_end tags k
         \<and> span_end tags k \<le> length tags
         \<and> (k + 1 < length chunks \<longrightarrow> span_end tags k = marker_positions tags ! (k + 1))
         \<and> (k + 1 = length chunks \<longrightarrow> span_end tags k = length tags))
     \<and> [0..<length (takeWhile (\<lambda>t. \<not> is_article_start t) tags)]
           @ concat (map (\<lambda>k. [marker_positions tags ! k..<span_end tags k]) [0..<length chunks])
         = [0..<length tags]
     \<and> takeWhile (\<lambda>t. \<not> is_article_start t) tags
           @ concat (map (span tags) [0..<length chunks]) = tags"
proof -
  let ?ms = "marker_positions tags"
  let ?chunks = "map (expected_chunk tags) [0..<length ?ms]"
  have len: "length ?chunks = length ?ms" by simp
  have per: "paragraph_ids (?chunks ! k) = map node_id (span tags k)
         \<and> content (?chunks ! k) = str_join [0x0A] (map node_content (span tags k))
         \<and> span tags k = py_slice tags (?ms ! k) (span_end tags k)
         \<and> is_article_start (tags ! (?ms ! k))
         \<and> ?ms ! k < span_end tags k
         \<and> span_end tags k \<le> length tags
         \<and> (k + 1 < length ?chunks \<longrightarrow> span_end tags k = ?ms ! (k + 1))
         \<and> (k + 1 = length ?chunks \<longrightarrow> span_end tags k = length tags)"
    if k: "k < length ?chunks" for k
  proof -
    from k have k': "k < length ?ms" by simp
    have le: "span_end tags k \<le> length tags" using k' by (rule marker_lt_span_end(2))
    have "?ms ! k \<in> set ?ms" using k' by simp
    then have st: "is_article_start (tags ! (?ms ! k))" by (simp add: marker_positions_def)
    have sl: "span tags k = py_slice tags (?ms ! k) (span_end tags k)"
      using le by (simp add: py_slice_nth span_def)
    show ?thesis
      using k' le st sl marker_lt_span_end(1) [OF k']
      by (simp add: expected_chunk_def span_end_def)
  qed
  show ?thesis
    apply (rule exI [of _ ?chunks])
    apply (intro conjI allI impI)
    subgoal by (rule parse_eq)
    subgoal by (simp add: marker_count)
    subgoal by simp
    subgoal for k using per [of k] by blast
    subgoal for k using per [of k] by blast
    subgoal for k using per [of k] by blast
    subgoal for k using per [of k] by blast
    subgoal for k using per [of k] by blast
    subgoal for k using per [of k] by blast
    subgoal for k using per [of k] by blast
    subgoal for k using per [of k] by blast
    subgoal by (simp only: len span_indices_partition)
    subgoal by (simp only: len spans_partition)
    done
qed

theorem segment_spans_witness:
  "\<exists>chunks. parse_html_by_article_sections ex_doc = Inr chunks
     \<and> length chunks = 2
     \<and> paragraph_ids (chunks ! 0) = [ascii ''p1'', ascii ''unknown'']
     \<and> paragraph_ids (chunks ! 1) = [ascii ''p3'']
     \<and> span ex_doc 0 = [ex_art1, ex_body] \<and> span ex_doc 1 = [ex_art2]
     \<and> takeWhile (\<lambda>t. \<not> is_article_start t) ex_doc = [ex_plain]"
proof -
  from segment_spans [of ex_doc] obtain chunks where
    p: "parse_html_by_article_sections ex_doc = Inr chunks" and
    n: "length chunks = length (marker_positions ex_doc)" and
    a: "\<forall>k<length chunks. paragraph_ids (chunks ! k) = map node_id (span ex_doc k)"
    by blast
  from n have n2: "length chunks = 2" by (simp add: ex_markers)
  with a have "paragraph_ids (chunks ! 0) = map node_id (span ex_doc 0)"
    and "paragraph_ids (chunks ! 1) = map node_id (span ex_doc 1)" by simp_all
  then have "paragraph_ids (chunks ! 0) = [ascii ''p1'', ascii ''unknown'']"
    and "paragraph_ids (chunks ! 1) = [ascii ''p3'']"
    by (simp_all add: ex_spans ex_ids)
  moreover have "takeWhile (\<lambda>t. \<not> is_article_start t) ex_doc = [ex_plain]"
    by (simp add: ex_doc_def ex_starts)
  ultimately show ?thesis using p n2 by (simp add: ex_spans)
qed

text \<open>
  C4. A document in which no node's stripped text matches the article-start pattern
  gives the empty list of chunks, and no error.
\<close>

theorem no_markers_empty:
  "\<forall>t\<in>set tags. re_match article_start_pattern (get_text [] True t) = None \<Longrightarrow>
   parse_html_by_article_sections tags = Inr []"
proof -
  assume "\<forall>t\<in>set tags. re_match article_start_pattern (get_text [] True t) = None"
  then have "\<forall>i\<in>set [0..<length tags]. \<not> is_article_start (tags ! i)"
    by (simp add: is_article_start_def)
  then have "marker_positions tags = []"
    unfolding marker_positions_def by (simp only: filter_False)
  then show ?thesis by (simp add: parse_eq)
qed

theorem no_markers_empty_witness:
  "re_match article_start_pattern (get_text [] True ex_plain) = None
   \<and> re_match article_start_pattern (get_text [] True ex_body) = None
   \<and> parse_html_by_article_sections [ex_plain, ex_body] = Inr []"
proof -
  have a: "re_match article_start_pattern (get_text [] True ex_plain) = None"
    and b: "re_match article_start_pattern (get_text [] True ex_body) = None"
    using ex_starts by (simp_all add: is_article_start_def)
  then have "\<forall>t\<in>set [ex_plain, ex_body]. re_match article_start_pattern (get_text [] True t) = None"
    by simp
  then show ?thesis using a b no_markers_empty [of "[ex_plain, ex_body]"] by blast
qed

text \<open>
  C2. The \<open>relation_parts\<close> of a chunk are the matches of the reference pattern in the
  normalised texts of its nodes, node after node and in the order found within a node,
  without the first of them; the first is dropped whatever it is.
\<close>

theorem relation_parts_drop_first:
  "\<exists>chunks. parse_html_by_article_sections tags = Inr chunks
     \<and> (\<forall>k<length chunks.
           relation_parts (chunks ! k)
             = drop 1 (concat (map (\<lambda>t. get_relation_parts (clean_text (node_content t)))
                                (span tags k))))"
proof -
  have "node_refs = (\<lambda>t. get_relation_parts (clean_text (node_content t)))"
    by (rule ext) (simp add: node_refs_def)
  then show ?thesis by (simp add: parse_eq expected_chunk_def)
qed

theorem relation_parts_drop_first_witness:
  "(\<exists>c. parse_html_by_article_sections [ex_split] = Inr [c]
        \<and> article_id c = [c_je, 0x31, c_jo]
        \<and> get_relation_parts (clean_text (node_content ex_split)) = [[c_je, 0x32, c_jo]]
        \<and> relation_parts c = [])
   \<and> (\<exists>c1 c2. parse_html_by_article_sections ex_doc = Inr [c1, c2]
        \<and> relation_parts c1 = [[c_je, 0x32, c_jo, c_je, 0x33, c_hang]]
        \<and> relation_parts c2 = [])"
proof -
  have m: "marker_positions [ex_split] = [0]"
    by (simp add: marker_positions_Cons ex_split_eval marker_positions_def)
  have sp: "span [ex_split] 0 = [ex_split]"
    by (simp add: span_def span_end_def m)
  have e: "parse_html_by_article_sections [ex_split] = Inr [expected_chunk [ex_split] 0]"
    by (simp add: parse_eq m)
  have "article_label ex_split = [c_je, 0x31, c_jo]"
    by (simp add: article_label_def ex_split_def text_simps char_simps match_simps)
  moreover have "article_id (expected_chunk [ex_split] 0) = article_label ex_split"
    by (simp add: expected_chunk_def m)
  ultimately have l: "article_id (expected_chunk [ex_split] 0) = [c_je, 0x31, c_jo]" by simp
  have r: "get_relation_parts (clean_text (node_content ex_split)) = [[c_je, 0x32, c_jo]]"
    using ex_split_eval(2) by (simp add: node_refs_def)
  from relation_parts_drop_first [of "[ex_split]"] e
  have "relation_parts (expected_chunk [ex_split] 0)
      = drop 1 (concat (map (\<lambda>t. get_relation_parts (clean_text (node_content t))) (span [ex_split] 0)))"
    by simp
  then have a: "relation_parts (expected_chunk [ex_split] 0) = []" by (simp add: sp r)
  have e2: "parse_html_by_article_sections ex_doc = Inr [expected_chunk ex_doc 0, expected_chunk ex_doc 1]"
    by (simp add: parse_eq ex_markers upt_conv_Cons)
  have refs: "get_relation_parts (clean_text (node_content ex_art1)) = [[c_je, 0x31, c_jo]]"
    "get_relation_parts (clean_text (node_content ex_body)) = [[c_je, 0x32, c_jo, c_je, 0x33, c_hang]]"
    "get_relation_parts (clean_text (node_content ex_art2)) = [[c_je, 0x32, c_jo]]"
    using ex_refs by (simp_all add: node_refs_def)
  from relation_parts_drop_first [of ex_doc] obtain chunks where
    c: "parse_html_by_article_sections ex_doc = Inr chunks" and
    d: "\<forall>k<length chunks. relation_parts (chunks ! k)
          = drop 1 (concat (map (\<lambda>t. get_relation_parts (clean_text (node_content t))) (span ex_doc k)))"
    by blast
  from c e2 have ch: "chunks = [expected_chunk ex_doc 0, expected_chunk ex_doc 1]" by simp
  from d [rule_format, of 0] d [rule_format, of 1] ch
  have "relation_parts (expected_chunk ex_doc 0)
      = drop 1 (concat (map (\<lambda>t. get_relation_parts (clean_text (node_content t))) (span ex_doc 0)))"
    and "relation_parts (expected_chunk ex_doc 1)
      = drop 1 (concat (map (\<lambda>t. get_relation_parts (clean_text (node_content t))) (span ex_doc 1)))"
    by simp_all
  then have b: "relation_parts (expected_chunk ex_doc 0) = [[c_je, 0x32, c_jo, c_je, 0x33, c_hang]]"
    "relation_parts (expected_chunk ex_doc 1) = []"
    by (simp_all add: ex_spans refs)
  from e l r a e2 b show ?thesis by simp
qed

text \<open>
  C3. Dropping the first match never fails: on the empty list the slice is the empty
  list. The program returns chunks for every document, and a chunk whose nodes give no
  match, or one match only, has no \<open>relation_parts\<close>.
\<close>

theorem drop_first_no_underflow:
  "py_slice_from ([] :: ustring list) 1 = []
   \<and> (\<exists>chunks. parse_html_by_article_sections tags = Inr chunks
        \<and> (\<forall>k<length chunks.
              length (concat (map node_refs (span tags k))) \<le> 1
              \<longrightarrow> relation_parts (chunks ! k) = []))"
  by (simp add: py_slice_from_def parse_eq expected_chunk_def)

lemma ex_bare_doc:
  "marker_positions [ex_bare] = [0]" "span [ex_bare] 0 = [ex_bare]"
  "parse_html_by_article_sections [ex_bare] = Inr [expected_chunk [ex_bare] 0]"
proof -
  show m: "marker_positions [ex_bare] = [0]"
    by (simp add: marker_positions_Cons ex_split_eval marker_positions_def)
  then show "span [ex_bare] 0 = [ex_bare]" by (simp add: span_def span_end_def)
  from m show "parse_html_by_article_sections [ex_bare] = Inr [expected_chunk [ex_bare] 0]"
    by (simp add: parse_eq)
qed

lemma ex_doc_parse:
  "parse_html_by_article_sections ex_doc = Inr [expected_chunk ex_doc 0, expected_chunk ex_doc 1]"
  by (simp add: parse_eq ex_markers upt_conv_Cons)

theorem drop_first_no_underflow_witness:
  "(\<exists>c. parse_html_by_article_sections [ex_bare] = Inr [c]
        \<and> concat (map node_refs (span [ex_bare] 0)) = []
        \<and> relation_parts c = [])
   \<and> (\<exists>c1 c2. parse_html_by_article_sections ex_doc = Inr [c1, c2]
        \<and> concat (map node_refs (span ex_doc 1)) = [[c_je, 0x32, c_jo]]
        \<and> relation_parts c2 = [])"
proof -
  have z: "concat (map node_refs (span [ex_bare] 0)) = []"
    by (simp add: ex_bare_doc ex_split_eval)
  from drop_first_no_underflow [of "[ex_bare]"] obtain chunks where
    c: "parse_html_by_article_sections [ex_bare] = Inr chunks" and
    d: "\<forall>k<length chunks. length (concat (map node_refs (span [ex_bare] k))) \<le> 1
          \<longrightarrow> relation_parts (chunks ! k) = []"
    by blast
  from c have ch: "chunks = [expected_chunk [ex_bare] 0]" by (simp add: ex_bare_doc)
  with d [rule_format, of 0] z have a: "relation_parts (expected_chunk [ex_bare] 0) = []"
    by simp
  have o: "concat (map node_refs (span ex_doc 1)) = [[c_je, 0x32, c_jo]]"
    by (simp add: ex_spans ex_refs)
  from drop_first_no_underflow [of ex_doc] obtain chunks2 where
    c2: "parse_html_by_article_sections ex_doc = Inr chunks2" and
    d2: "\<forall>k<length chunks2. length (concat (map node_refs (span ex_doc k))) \<le> 1
          \<longrightarrow> relation_parts (chunks2 ! k) = []"
    by blast
  from c2 have ch2: "chunks2 = [expected_chunk ex_doc 0, expected_chunk ex_doc 1]"
    by (simp add: ex_doc_parse)
  with d2 [rule_format, of 1] o have b: "relation_parts (expected_chunk ex_doc 1) = []"
    by simp
  from z a o b show ?thesis by (simp add: ex_bare_doc ex_doc_parse)
qed

text \<open>
  C5. In every chunk the text fragments joined into \<open>content\<close> and the entries of
  \<open>paragraph_ids\<close> are as many as the nodes of the span, and the \<open>i\<close>-th fragment and the
  \<open>i\<close>-th identifier come from the \<open>i\<close>-th node of the span.
\<close>

theorem content_ids_parallel:
  "\<exists>chunks. parse_html_by_article_sections tags = Inr chunks
     \<and> (\<forall>k<length chunks. \<exists>parts.
           content (chunks ! k) = str_join [0x0A] parts
         \<and> length parts = length (paragraph_ids (chunks ! k))
         \<and> length parts = length (span tags k)
         \<and> (\<forall>i<length parts.
               parts ! i = node_content (span tags k ! i)
             \<and> paragraph_ids (chunks ! k) ! i = node_id (span tags k ! i)))"
proof -
  have "\<exists>parts.
           content (expected_chunk tags k) = str_join [0x0A] parts
         \<and> length parts = length (paragraph_ids (expected_chunk tags k))
         \<and> length parts = length (span tags k)
         \<and> (\<forall>i<length parts.
               parts ! i = node_content (span tags k ! i)
             \<and> paragraph_ids (expected_chunk tags k) ! i = node_id (span tags k ! i))" for k
    by (rule exI [of _ "map node_content (span tags k)"]) (simp add: expected_chunk_def)
  then show ?thesis by (simp add: parse_eq)
qed

lemma list_of_length_1: "length xs = 1 \<Longrightarrow> xs = [xs ! 0]"
  by (cases xs) auto

lemma list_of_length_2: "length xs = 2 \<Longrightarrow> xs = [xs ! 0, xs ! 1]"
proof (cases xs)
  case Nil
  assume "length xs = 2"
  with Nil show ?thesis by simp
next
  case (Cons a ys)
  assume "length xs = 2"
  with Cons show ?thesis by (cases ys) auto
qed

lemma ex_contents:
  "node_content ex_art1 = [c_je, 0x31, c_jo, 0x20, 0x42]"
  "node_content ex_body = [0x43, c_je, 0x32, c_jo, c_je, 0x33, c_hang]"
  by (simp_all add: node_content_def ex_art1_def ex_body_def text_simps char_simps)

theorem content_ids_parallel_witness:
  "\<exists>c1 c2. parse_html_by_article_sections ex_doc = Inr [c1, c2]
     \<and> content c1 = [c_je, 0x31, c_jo, 0x20, 0x42] @ [0x0A]
                      @ [0x43, c_je, 0x32, c_jo, c_je, 0x33, c_hang]
     \<and> paragraph_ids c1 = [ascii ''p1'', ascii ''unknown'']"
proof -
  from content_ids_parallel [of ex_doc] obtain chunks where
    c: "parse_html_by_article_sections ex_doc = Inr chunks" and
    d: "\<forall>k<length chunks. \<exists>parts.
           content (chunks ! k) = str_join [0x0A] parts
         \<and> length parts = length (paragraph_ids (chunks ! k))
         \<and> length parts = length (span ex_doc k)
         \<and> (\<forall>i<length parts.
               parts ! i = node_content (span ex_doc k ! i)
             \<and> paragraph_ids (chunks ! k) ! i = node_id (span ex_doc k ! i))"
    by blast
  from c have ch: "chunks = [expected_chunk ex_doc 0, expected_chunk ex_doc 1]"
    by (simp add: ex_doc_parse)
  let ?c = "expected_chunk ex_doc 0"
  from d [rule_format, of 0] ch obtain parts where
    p: "content ?c = str_join [0x0A] parts"
      "length parts = length (paragraph_ids ?c)" "length parts = 2"
      "\<forall>i<length parts. parts ! i = node_content (span ex_doc 0 ! i)
          \<and> paragraph_ids ?c ! i = node_id (span ex_doc 0 ! i)"
    by (auto simp: ex_spans)
  from p(3,4) have "parts ! 0 = node_content ex_art1" "parts ! 1 = node_content ex_body"
    "paragraph_ids ?c ! 0 = node_id ex_art1" "paragraph_ids ?c ! 1 = node_id ex_body"
    by (simp_all add: ex_spans)
  moreover from p(3) have "parts = [parts ! 0, parts ! 1]"
    by (rule list_of_length_2)
  moreover from p(2,3) have "paragraph_ids ?c = [paragraph_ids ?c ! 0, paragraph_ids ?c ! 1]"
    by (intro list_of_length_2) simp
  ultimately have "parts = [node_content ex_art1, node_content ex_body]"
    "paragraph_ids ?c = [node_id ex_art1, node_id ex_body]"
    by simp_all
  with p(1) have "content ?c = [c_je, 0x31, c_jo, 0x20, 0x42] @ [0x0A]
                      @ [0x43, c_je, 0x32, c_jo, c_je, 0x33, c_hang]"
    "paragraph_ids ?c = [ascii ''p1'', ascii ''unknown'']"
    by (simp_all add: ex_contents ex_ids)
  then show ?thesis by (simp add: ex_doc_parse)
qed

text \<open>
  C9. The program returns chunks for every document, and for a node of a span that has
  no \<open>id\<close> attribute the string \<open>unknown\<close> stands in \<open>paragraph_ids\<close> at the node's
  place, and in \<open>start_id\<close> or \<open>end_id\<close> when the node is the first or the last of the span.
\<close>

theorem missing_id_unknown:
  "\<exists>chunks. parse_html_by_article_sections tags = Inr chunks
     \<and> (\<forall>k<length chunks. \<forall>i<length (span tags k).
           attrs (span tags k ! i) (ascii ''id'') = None \<longrightarrow>
             paragraph_ids (chunks ! k) ! i = ascii ''unknown''
           \<and> (i = 0 \<longrightarrow> start_id (chunks ! k) = ascii ''unknown'')
           \<and> (i + 1 = length (span tags k) \<longrightarrow> end_id (chunks ! k) = ascii ''unknown''))"
proof -
  let ?cs = "map (expected_chunk tags) [0..<length (marker_positions tags)]"
  have per: "paragraph_ids (expected_chunk tags k) ! i = ascii ''unknown''
           \<and> (i = 0 \<longrightarrow> start_id (expected_chunk tags k) = ascii ''unknown'')
           \<and> (i + 1 = length (span tags k) \<longrightarrow> end_id (expected_chunk tags k) = ascii ''unknown'')"
    if k: "k < length (marker_positions tags)" and i: "i < length (span tags k)"
      and none: "attrs (span tags k ! i) (ascii ''id'') = None" for k i
  proof -
    have u: "node_id (span tags k ! i) = ascii ''unknown''"
      using none by (simp add: node_id_def tag_get_def)
    have ne: "span tags k \<noteq> []" using k by (rule span_nonempty)
    have h: "node_id (tags ! (marker_positions tags ! k)) = node_id (hd (span tags k))"
      and l: "node_id (tags ! (span_end tags k - 1)) = node_id (last (span tags k))"
      using span_hd_last [OF k] by simp_all
    have "i = 0 \<Longrightarrow> hd (span tags k) = span tags k ! i" using ne by (simp add: hd_conv_nth)
    moreover have "last (span tags k) = span tags k ! i" if "i + 1 = length (span tags k)"
    proof -
      from that have "length (span tags k) - 1 = i" by arith
      with ne show ?thesis by (simp add: last_conv_nth)
    qed
    ultimately show ?thesis using u i h l by (auto simp: expected_chunk_def)
  qed
  have "\<forall>k<length ?cs. \<forall>i<length (span tags k).
           attrs (span tags k ! i) (ascii ''id'') = None \<longrightarrow>
             paragraph_ids (?cs ! k) ! i = ascii ''unknown''
           \<and> (i = 0 \<longrightarrow> start_id (?cs ! k) = ascii ''unknown'')
           \<and> (i + 1 = length (span tags k) \<longrightarrow> end_id (?cs ! k) = ascii ''unknown'')"
  proof (intro allI impI)
    fix k i
    assume k: "k < length ?cs" and i: "i < length (span tags k)"
      and none: "attrs (span tags k ! i) (ascii ''id'') = None"
    from k have k': "k < length (marker_positions tags)" by simp
    then have "?cs ! k = expected_chunk tags k" by simp
    with per [OF k' i none]
    show "paragraph_ids (?cs ! k) ! i = ascii ''unknown''
           \<and> (i = 0 \<longrightarrow> start_id (?cs ! k) = ascii ''unknown'')
           \<and> (i + 1 = length (span tags k) \<longrightarrow> end_id (?cs ! k) = ascii ''unknown'')"
      by simp
  qed
  with parse_eq [of tags] show ?thesis by blast
qed

theorem missing_id_unknown_witness:
  "(\<exists>c1 c2. parse_html_by_article_sections ex_doc = Inr [c1, c2]
       \<and> attrs ex_body (ascii ''id'') = None
       \<and> paragraph_ids c1 ! 1 = ascii ''unknown'' \<and> end_id c1 = ascii ''unknown'')
   \<and> (\<exists>c. parse_html_by_article_sections [ex_bare] = Inr [c]
       \<and> attrs ex_bare (ascii ''id'') = None
       \<and> paragraph_ids c = [ascii ''unknown'']
       \<and> start_id c = ascii ''unknown'' \<and> end_id c = ascii ''unknown'')"
proof -
  have n1: "attrs ex_body (ascii ''id'') = None" by (simp add: ex_body_def)
  have n2: "attrs ex_bare (ascii ''id'') = None" by (simp add: ex_bare_def)
  from missing_id_unknown [of ex_doc] obtain chunks where
    c: "parse_html_by_article_sections ex_doc = Inr chunks" and
    d: "\<forall>k<length chunks. \<forall>i<length (span ex_doc k).
           attrs (span ex_doc k ! i) (ascii ''id'') = None \<longrightarrow>
             paragraph_ids (chunks ! k) ! i = ascii ''unknown''
           \<and> (i = 0 \<longrightarrow> start_id (chunks ! k) = ascii ''unknown'')
           \<and> (i + 1 = length (span ex_doc k) \<longrightarrow> end_id (chunks ! k) = ascii ''unknown'')"
    by blast
  from c have ch: "chunks = [expected_chunk ex_doc 0, expected_chunk ex_doc 1]"
    by (simp add: ex_doc_parse)
  from d [rule_format, of 0 1] ch n1
  have a: "paragraph_ids (expected_chunk ex_doc 0) ! 1 = ascii ''unknown''"
    "end_id (expected_chunk ex_doc 0) = ascii ''unknown''"
    by (simp_all add: ex_spans)
  from missing_id_unknown [of "[ex_bare]"] obtain chunks2 where
    c2: "parse_html_by_article_sections [ex_bare] = Inr chunks2" and
    d2: "\<forall>k<length chunks2. \<forall>i<length (span [ex_bare] k).
           attrs (span [ex_bare] k ! i) (ascii ''id'') = None \<longrightarrow>
             paragraph_ids (chunks2 ! k) ! i = ascii ''unknown''
           \<and> (i = 0 \<longrightarrow> start_id (chunks2 ! k) = ascii ''unknown'')
           \<and> (i + 1 = length (span [ex_bare] k) \<longrightarrow> end_id (chunks2 ! k) = ascii ''unknown'')"
    by blast
  from c2 have ch2: "chunks2 = [expected_chunk [ex_bare] 0]" by (simp add: ex_bare_doc)
  from d2 [rule_format, of 0 0] ch2 n2
  have b: "paragraph_ids (expected_chunk [ex_bare] 0) ! 0 = ascii ''unknown''"
    "start_id (expected_chunk [ex_bare] 0) = ascii ''unknown''"
    "end_id (expected_chunk [ex_bare] 0) = ascii ''unknown''"
    by (simp_all add: ex_bare_doc)
  have "length (paragraph_ids (expected_chunk [ex_bare] 0)) = 1"
    by (simp add: expected_chunk_def ex_bare_doc)
  then have "paragraph_ids (expected_chunk [ex_bare] 0) = [paragraph_ids (expected_chunk [ex_bare] 0) ! 0]"
    by (rule list_of_length_1)
  with b(1) have b1: "paragraph_ids (expected_chunk [ex_bare] 0) = [ascii ''unknown'']"
    by simp
  from n1 n2 a b b1 show ?thesis by (simp add: ex_doc_parse ex_bare_doc)
qed

text \<open>
  C10. Every chunk spans at least one node, the first being its article-start node: its
  list of paragraph identifiers is not empty, \<open>start_id\<close> is its first element and
  \<open>end_id\<close> its last.
\<close>

theorem chunk_ids_nonempty:
  "\<exists>chunks. parse_html_by_article_sections tags = Inr chunks
     \<and> (\<forall>k<length chunks.
           span tags k \<noteq> [] \<and> is_article_start (hd (span tags k))
         \<and> length (paragraph_ids (chunks ! k)) = length (span tags k)
         \<and> paragraph_ids (chunks ! k) \<noteq> []
         \<and> start_id (chunks ! k) = hd (paragraph_ids (chunks ! k))
         \<and> end_id (chunks ! k) = last (paragraph_ids (chunks ! k)))"
proof -
  let ?ms = "marker_positions tags"
  let ?cs = "map (expected_chunk tags) [0..<length ?ms]"
  have "\<forall>k<length ?cs.
           span tags k \<noteq> [] \<and> is_article_start (hd (span tags k))
         \<and> length (paragraph_ids (?cs ! k)) = length (span tags k)
         \<and> paragraph_ids (?cs ! k) \<noteq> []
         \<and> start_id (?cs ! k) = hd (paragraph_ids (?cs ! k))
         \<and> end_id (?cs ! k) = last (paragraph_ids (?cs ! k))"
  proof (intro allI impI)
    fix k assume "k < length ?cs"
    then have k: "k < length ?ms" by simp
    then have c: "?cs ! k = expected_chunk tags k" by simp
    have ne: "span tags k \<noteq> []" using k by (rule span_nonempty)
    have "?ms ! k \<in> set ?ms" using k by simp
    then have "is_article_start (tags ! (?ms ! k))" by (simp add: marker_positions_def)
    then have st: "is_article_start (hd (span tags k))" using span_hd_last(1) [OF k] by simp
    show "span tags k \<noteq> [] \<and> is_article_start (hd (span tags k))
         \<and> length (paragraph_ids (?cs ! k)) = length (span tags k)
         \<and> paragraph_ids (?cs ! k) \<noteq> []
         \<and> start_id (?cs ! k) = hd (paragraph_ids (?cs ! k))
         \<and> end_id (?cs ! k) = last (paragraph_ids (?cs ! k))"
      unfolding c using ne st span_hd_last [OF k]
      by (simp add: expected_chunk_def hd_map last_map)
  qed
  with parse_eq [of tags] show ?thesis by blast
qed

theorem chunk_ids_nonempty_witness:
  "\<exists>c1 c2. parse_html_by_article_sections ex_doc = Inr [c1, c2]
     \<and> paragraph_ids c1 = [ascii ''p1'', ascii ''unknown'']
     \<and> start_id c1 = ascii ''p1'' \<and> end_id c1 = ascii ''unknown''
     \<and> start_id c2 = ascii ''p3'' \<and> end_id c2 = ascii ''p3''"
proof -
  have p: "paragraph_ids (expected_chunk ex_doc 0) = [ascii ''p1'', ascii ''unknown'']"
    "paragraph_ids (expected_chunk ex_doc 1) = [ascii ''p3'']"
    by (simp_all add: expected_chunk_def ex_spans ex_ids)
  from chunk_ids_nonempty [of ex_doc] obtain chunks where
    c: "parse_html_by_article_sections ex_doc = Inr chunks" and
    d: "\<forall>k<length chunks. span ex_doc k \<noteq> [] \<and> is_article_start (hd (span ex_doc k))
         \<and> length (paragraph_ids (chunks ! k)) = length (span ex_doc k)
         \<and> paragraph_ids (chunks ! k) \<noteq> []
         \<and> start_id (chunks ! k) = hd (paragraph_ids (chunks ! k))
         \<and> end_id (chunks ! k) = last (paragraph_ids (chunks ! k))"
    by blast
  from c have ch: "chunks = [expected_chunk ex_doc 0, expected_chunk ex_doc 1]"
    by (simp add: ex_doc_parse)
  from d [rule_format, of 0] d [rule_format, of 1] ch
  have "start_id (expected_chunk ex_doc 0) = hd (paragraph_ids (expected_chunk ex_doc 0))"
    "end_id (expected_chunk ex_doc 0) = last (paragraph_ids (expected_chunk ex_doc 0))"
    "start_id (expected_chunk ex_doc 1) = hd (paragraph_ids (expected_chunk ex_doc 1))"
    "end_id (expected_chunk ex_doc 1) = last (paragraph_ids (expected_chunk ex_doc 1))"
    by simp_all
  with p show ?thesis by (simp add: ex_doc_parse)
qed

section \<open>Normalisation\<close>

lemma first_rest_head:
  "rests r s = t # ts \<Longrightarrow> t \<noteq> s \<Longrightarrow> first_rest r adv s = Some t"
  by (simp add: first_rest_def)

lemma first_rest_none: "rests r s = [] \<Longrightarrow> first_rest r adv s = None"
  by (simp add: first_rest_def)

lemma scan_match:
  "rests r s = t # ts \<Longrightarrow> t \<noteq> s \<Longrightarrow>
   scan r adv s = Matched (take (length s - length t) s) # scan r False t"
  by (subst scan.simps) (simp add: first_rest_head)

lemma scan_skip: "rests r (c # cs) = [] \<Longrightarrow> scan r adv (c # cs) = Skipped c # scan r False cs"
  by (subst scan.simps) (simp add: first_rest_none)

lemma scan_end: "rests r [] = [] \<Longrightarrow> scan r adv [] = []"
  by (subst scan.simps) (simp add: first_rest_none)

lemma scan_Atom:
  "scan (Atom k) adv s = map (\<lambda>c. if in_class k c then Matched [c] else Skipped c) s"
proof (induction s arbitrary: adv)
  case Nil
  show ?case by (simp add: scan_end)
next
  case (Cons c cs)
  show ?case
  proof (cases "in_class k c")
    case True
    then have "rests (Atom k) (c # cs) = [cs]" by simp
    then have "scan (Atom k) adv (c # cs) = Matched [c] # scan (Atom k) False cs"
      using scan_match [of "Atom k" "c # cs" cs "[]" adv] by simp
    with True Cons show ?thesis by simp
  next
    case False
    then have "rests (Atom k) (c # cs) = []" by simp
    then show ?thesis using False Cons by (simp add: scan_skip)
  qed
qed

lemma re_sub_Atom_empty: "re_sub (Atom k) [] s = filter (\<lambda>c. \<not> in_class k c) s"
  unfolding re_sub_def scan_Atom by (induction s) simp_all

lemma plus_rests_head:
  "in_class k c \<Longrightarrow> \<exists>ts. plus_rests k (c # cs) = dropWhile (in_class k) cs # ts"
proof (induction cs arbitrary: c)
  case Nil
  then show ?case by simp
next
  case (Cons d ds)
  show ?case
  proof (cases "in_class k d")
    case True
    from Cons.IH [OF True] obtain ts where "plus_rests k (d # ds) = dropWhile (in_class k) ds # ts" ..
    with Cons.prems True show ?thesis by simp
  next
    case False
    with Cons.prems show ?thesis by simp
  qed
qed

lemma take_length_dropWhile:
  "take (length xs - length (dropWhile P xs)) xs = takeWhile P xs"
proof -
  have "length xs - length (dropWhile P xs) = length (takeWhile P xs)"
    by (metis add_diff_cancel_right' length_append takeWhile_dropWhile_id)
  then show ?thesis by (metis takeWhile_eq_take)
qed

lemma scan_Plus_Cons:
  "scan (Plus k) adv (c # cs) =
     (if in_class k c
      then Matched (c # takeWhile (in_class k) cs) # scan (Plus k) False (dropWhile (in_class k) cs)
      else Skipped c # scan (Plus k) False cs)"
proof (cases "in_class k c")
  case True
  then obtain ts where r: "rests (Plus k) (c # cs) = dropWhile (in_class k) cs # ts"
    using plus_rests_head [of k c cs] by auto
  have ne: "dropWhile (in_class k) cs \<noteq> c # cs"
    using length_dropWhile_le [of "in_class k" cs] by (metis impossible_Cons)
  have "length (dropWhile (in_class k) cs) \<le> length cs" by (rule length_dropWhile_le)
  then have "take (length (c # cs) - length (dropWhile (in_class k) cs)) (c # cs)
      = c # take (length cs - length (dropWhile (in_class k) cs)) cs"
    by (simp add: Suc_diff_le)
  then have "take (length (c # cs) - length (dropWhile (in_class k) cs)) (c # cs)
      = c # takeWhile (in_class k) cs"
    by (simp only: take_length_dropWhile)
  with scan_match [OF r ne, of adv] True show ?thesis by simp
next
  case False
  then have "rests (Plus k) (c # cs) = []" by simp
  with False show ?thesis by (simp add: scan_skip)
qed

lemma re_sub_Plus: "re_sub (Plus k) repl s = squeeze (in_class k) repl s"
proof (induction "in_class k" repl s rule: squeeze.induct)
  case (1 repl)
  show ?case by (simp add: re_sub_def scan_end)
next
  case (2 repl c cs)
  then show ?case by (simp add: re_sub_def scan_Plus_Cons)
qed

lemma str_replace_char:
  "str_replace [a] [b] s = map (\<lambda>c. if c = a then b else c) s"
  by (induction s) auto

lemma clean_text_eq:
  "clean_text s =
     squeeze is_space [0x20]
       (filter (\<lambda>c. \<not> (0x2460 \<le> c \<and> c \<le> 0x2473)) (map (\<lambda>c. if c = 0x0A then 0x20 else c) s))"
proof -
  have "in_class Space = is_space" by (rule ext) simp
  then show ?thesis
    by (simp add: clean_text_def circled_numeral_def whitespace_run_def re_sub_Atom_empty
        re_sub_Plus str_replace_char)
qed

lemma set_squeeze: "set (squeeze P repl s) \<subseteq> set repl \<union> {c \<in> set s. \<not> P c}"
proof (induction P repl s rule: squeeze.induct)
  case (1 P repl)
  show ?case by simp
next
  case (2 P repl c cs)
  show ?case
  proof (cases "P c")
    case True
    with 2 have "set (squeeze P repl (dropWhile P cs))
        \<subseteq> set repl \<union> {c \<in> set (dropWhile P cs). \<not> P c}" by simp
    moreover have "set (dropWhile P cs) \<subseteq> set cs" by (auto dest: set_dropWhileD)
    ultimately show ?thesis using True by auto
  next
    case False
    with 2 show ?thesis by auto
  qed
qed

lemma dropWhile_unchanged: "xs = [] \<or> \<not> P (hd xs) \<Longrightarrow> dropWhile P xs = xs"
  by (cases xs) auto

lemma squeeze_head:
  "xs = [] \<or> \<not> P (hd xs) \<Longrightarrow> squeeze P repl xs = [] \<or> \<not> P (hd (squeeze P repl xs))"
  by (cases xs) auto

lemma squeeze_idem: "P b \<Longrightarrow> squeeze P [b] (squeeze P [b] s) = squeeze P [b] s"
proof (induction P "[b]" s rule: squeeze.induct)
  case (1 P)
  show ?case by simp
next
  case (2 P c cs)
  show ?case
  proof (cases "P c")
    case True
    let ?r = "squeeze P [b] (dropWhile P cs)"
    have "dropWhile P cs = [] \<or> \<not> P (hd (dropWhile P cs))"
      by (metis hd_dropWhile)
    then have "?r = [] \<or> \<not> P (hd ?r)" by (rule squeeze_head)
    then have "dropWhile P ?r = ?r" by (rule dropWhile_unchanged)
    moreover have "squeeze P [b] ?r = ?r" using 2 True by simp
    ultimately show ?thesis using True 2(3) by simp
  next
    case False
    with 2 show ?thesis by simp
  qed
qed

lemma is_space_facts: "is_space 0x20" "is_space 0x0A"
  by (simp_all add: is_space_def)

lemma clean_text_chars:
  "c \<in> set (clean_text s) \<Longrightarrow>
   \<not> (0x2460 \<le> c \<and> c \<le> 0x2473) \<and> (c = 0x20 \<or> \<not> is_space c)"
proof -
  assume "c \<in> set (clean_text s)"
  then have "c \<in> set [0x20] \<union> {c \<in> set (filter (\<lambda>c. \<not> (0x2460 \<le> c \<and> c \<le> 0x2473))
      (map (\<lambda>c. if c = 0x0A then 0x20 else c) s)). \<not> is_space c}"
    using set_squeeze [of is_space "[0x20]"] unfolding clean_text_eq by blast
  then show ?thesis by auto
qed

text \<open>C8. Normalising a normalised string changes nothing.\<close>

theorem clean_text_idempotent: "clean_text (clean_text s) = clean_text s"
proof -
  let ?t = "clean_text s"
  have nl: "map (\<lambda>c. if c = 0x0A then 0x20 else c) ?t = ?t"
  proof (rule map_idI)
    fix c assume "c \<in> set ?t"
    then have "c = 0x20 \<or> \<not> is_space c" by (simp add: clean_text_chars)
    then have "c \<noteq> 0x0A" using is_space_facts(2) by auto
    then show "(if c = 0x0A then 0x20 else c) = c" by simp
  qed
  have circ: "filter (\<lambda>c. \<not> (0x2460 \<le> c \<and> c \<le> 0x2473)) ?t = ?t"
    by (rule filter_True) (simp add: clean_text_chars)
  have "squeeze is_space [0x20] ?t = ?t"
    using squeeze_idem [of is_space "0x20"] is_space_facts(1) by (simp add: clean_text_eq)
  then show ?thesis
    by (subst clean_text_eq) (simp only: nl circ)
qed

theorem clean_text_idempotent_witness:
  "clean_text [0x42, 0x0A, 0x0A, 0x2460, 0x20, 0x2461, 0x09, 0x43, 0x3000] = [0x42, 0x20, 0x43, 0x20]
   \<and> clean_text [0x42, 0x20, 0x43, 0x20] = [0x42, 0x20, 0x43, 0x20]"
proof -
  have a: "clean_text [0x42, 0x0A, 0x0A, 0x2460, 0x20, 0x2461, 0x09, 0x43, 0x3000]
      = [0x42, 0x20, 0x43, 0x20]"
    by (simp add: clean_text_eq is_space_def)
  with clean_text_idempotent [of "[0x42, 0x0A, 0x0A, 0x2460, 0x20, 0x2461, 0x09, 0x43, 0x3000]"]
  show ?thesis by simp
qed

section \<open>References\<close>

lemma plus_rests_lang:
  "set (plus_rests k s) = {t. \<exists>p. p \<noteq> [] \<and> (\<forall>c\<in>set p. in_class k c) \<and> s = p @ t}"
proof (induction s)
  case Nil
  show ?case by simp
next
  case (Cons c cs)
  show ?case
  proof (cases "in_class k c")
    case False
    have "\<not> (\<exists>p. p \<noteq> [] \<and> (\<forall>c\<in>set p. in_class k c) \<and> c # cs = p @ t)" for t
    proof
      assume "\<exists>p. p \<noteq> [] \<and> (\<forall>c\<in>set p. in_class k c) \<and> c # cs = p @ t"
      then obtain p where p: "p \<noteq> []" "\<forall>c\<in>set p. in_class k c" "c # cs = p @ t" by blast
      then have "hd p = c" by (cases p) auto
      with p(1,2) False show False by (cases p) auto
    qed
    with False show ?thesis by simp
  next
    case True
    show ?thesis
    proof (rule set_eqI)
      fix t
      show "t \<in> set (plus_rests k (c # cs))
          \<longleftrightarrow> t \<in> {t. \<exists>p. p \<noteq> [] \<and> (\<forall>c\<in>set p. in_class k c) \<and> c # cs = p @ t}"
      proof
        assume "t \<in> set (plus_rests k (c # cs))"
        with True have "t \<in> set (plus_rests k cs) \<or> t = cs" by auto
        then show "t \<in> {t. \<exists>p. p \<noteq> [] \<and> (\<forall>c\<in>set p. in_class k c) \<and> c # cs = p @ t}"
        proof
          assume "t \<in> set (plus_rests k cs)"
          with Cons.IH obtain p where "p \<noteq> []" "\<forall>c\<in>set p. in_class k c" "cs = p @ t" by blast
          with True have "c # p \<noteq> [] \<and> (\<forall>x\<in>set (c # p). in_class k x) \<and> c # cs = (c # p) @ t"
            by simp
          then show ?thesis by blast
        next
          assume "t = cs"
          with True have "[c] \<noteq> [] \<and> (\<forall>x\<in>set [c]. in_class k x) \<and> c # cs = [c] @ t" by simp
          then show ?thesis by blast
        qed
      next
        assume "t \<in> {t. \<exists>p. p \<noteq> [] \<and> (\<forall>c\<in>set p. in_class k c) \<and> c # cs = p @ t}"
        then obtain p where p: "p \<noteq> []" "\<forall>c\<in>set p. in_class k c" "c # cs = p @ t" by blast
        then obtain q where q: "p = c # q" by (cases p) auto
        show "t \<in> set (plus_rests k (c # cs))"
        proof (cases "q = []")
          case True
          with p q have "t = cs" by simp
          with \<open>in_class k c\<close> show ?thesis by simp
        next
          case False
          with p q have "q \<noteq> [] \<and> (\<forall>c\<in>set q. in_class k c) \<and> cs = q @ t" by simp
          with Cons.IH have "t \<in> set (plus_rests k cs)" by blast
          with \<open>in_class k c\<close> show ?thesis by simp
        qed
      qed
    qed
  qed
qed

lemma rests_lang: "set (rests r s) = {t. \<exists>p\<in>lang r. s = p @ t}"
proof (induction r arbitrary: s)
  case (Atom k)
  show ?case by (cases s) auto
next
  case (Plus k)
  show ?case by (simp add: plus_rests_lang)
next
  case (Seq a b)
  show ?case
  proof (rule set_eqI)
    fix t
    have "t \<in> set (rests (Seq a b) s) \<longleftrightarrow> (\<exists>u\<in>set (rests a s). t \<in> set (rests b u))"
      by auto
    also have "\<dots> \<longleftrightarrow> (\<exists>u. (\<exists>p\<in>lang a. s = p @ u) \<and> (\<exists>q\<in>lang b. u = q @ t))"
      by (simp add: Seq.IH)
    also have "\<dots> \<longleftrightarrow> (\<exists>p\<in>lang a. \<exists>q\<in>lang b. s = (p @ q) @ t)"
      by auto
    also have "\<dots> \<longleftrightarrow> (\<exists>w\<in>lang (Seq a b). s = w @ t)"
      unfolding lang.simps by blast
    finally show "t \<in> set (rests (Seq a b) s) \<longleftrightarrow> t \<in> {t. \<exists>p\<in>lang (Seq a b). s = p @ t}"
      by simp
  qed
next
  case (Opt a)
  show ?case by (auto simp: Opt.IH)
qed

lemma in_lang_Seq: "w \<in> lang (Seq a b) \<longleftrightarrow> (\<exists>p q. w = p @ q \<and> p \<in> lang a \<and> q \<in> lang b)"
  by auto

lemma in_lang_Ch: "p \<in> lang (Atom (Ch c)) \<longleftrightarrow> p = [c]"
  by auto

lemma in_lang_digits: "p \<in> lang (Plus Digit) \<longleftrightarrow> number p"
  by (simp add: number_def)

lemma in_lang_Opt: "p \<in> lang (Opt a) \<longleftrightarrow> p = [] \<or> p \<in> lang a"
  by auto

lemma in_lang_sub:
  "p \<in> lang (Seq (Atom (Ch c_ui)) (Plus Digit)) \<longleftrightarrow> (\<exists>n2. number n2 \<and> p = c_ui # n2)"
  unfolding in_lang_Seq in_lang_Ch in_lang_digits by auto

lemma in_lang_par:
  "p \<in> lang (Seq (Atom (Ch c_je)) (Seq (Plus Digit) (Atom (Ch c_hang))))
     \<longleftrightarrow> (\<exists>n3. number n3 \<and> p = c_je # n3 @ [c_hang])"
  unfolding in_lang_Seq in_lang_Ch in_lang_digits by auto

lemma lang_relation_part: "m \<in> lang relation_part_pattern \<longleftrightarrow> ref_token m"
proof
  assume "m \<in> lang relation_part_pattern"
  then obtain p1 q1 where 1: "m = p1 @ q1" "p1 = [c_je]"
    and "q1 \<in> lang (Seq (Plus Digit) (Seq (Atom (Ch c_jo))
       (Seq (Opt (Seq (Atom (Ch c_ui)) (Plus Digit)))
            (Opt (Seq (Atom (Ch c_je)) (Seq (Plus Digit) (Atom (Ch c_hang))))))))"
    unfolding relation_part_pattern_def in_lang_Seq [of m] in_lang_Ch by blast
  then obtain n1 q2 where 2: "q1 = n1 @ q2" "number n1"
    and "q2 \<in> lang (Seq (Atom (Ch c_jo))
       (Seq (Opt (Seq (Atom (Ch c_ui)) (Plus Digit)))
            (Opt (Seq (Atom (Ch c_je)) (Seq (Plus Digit) (Atom (Ch c_hang)))))))"
    unfolding in_lang_Seq [of q1] in_lang_digits by blast
  then obtain p3 q3 where 3: "q2 = p3 @ q3" "p3 = [c_jo]"
    and "q3 \<in> lang (Seq (Opt (Seq (Atom (Ch c_ui)) (Plus Digit)))
            (Opt (Seq (Atom (Ch c_je)) (Seq (Plus Digit) (Atom (Ch c_hang))))))"
    unfolding in_lang_Seq [of q2] in_lang_Ch by blast
  then obtain sub par where 4: "q3 = sub @ par"
    and s: "sub = [] \<or> (\<exists>n2. number n2 \<and> sub = c_ui # n2)"
    and p: "par = [] \<or> (\<exists>n3. number n3 \<and> par = c_je # n3 @ [c_hang])"
    unfolding in_lang_Seq [of q3] in_lang_Opt in_lang_sub in_lang_par by blast
  from 1 2 3 4 have "m = c_je # n1 @ [c_jo] @ sub @ par" by simp
  with 2(2) s p show "ref_token m" unfolding ref_token_def by blast
next
  assume "ref_token m"
  then obtain n1 sub par where n1: "number n1"
    and s: "sub = [] \<or> (\<exists>n2. number n2 \<and> sub = c_ui # n2)"
    and p: "par = [] \<or> (\<exists>n3. number n3 \<and> par = c_je # n3 @ [c_hang])"
    and m: "m = c_je # n1 @ [c_jo] @ sub @ par"
    unfolding ref_token_def by blast
  from s have s': "sub \<in> lang (Opt (Seq (Atom (Ch c_ui)) (Plus Digit)))"
    unfolding in_lang_Opt in_lang_sub .
  from p have p': "par \<in> lang (Opt (Seq (Atom (Ch c_je)) (Seq (Plus Digit) (Atom (Ch c_hang)))))"
    unfolding in_lang_Opt in_lang_par .
  from s' p' have "sub @ par \<in> lang (Seq (Opt (Seq (Atom (Ch c_ui)) (Plus Digit)))
            (Opt (Seq (Atom (Ch c_je)) (Seq (Plus Digit) (Atom (Ch c_hang))))))"
    unfolding in_lang_Seq [of "sub @ par"] by blast
  then have "[c_jo] @ (sub @ par) \<in> lang (Seq (Atom (Ch c_jo))
       (Seq (Opt (Seq (Atom (Ch c_ui)) (Plus Digit)))
            (Opt (Seq (Atom (Ch c_je)) (Seq (Plus Digit) (Atom (Ch c_hang)))))))"
    unfolding in_lang_Seq [of "[c_jo] @ (sub @ par)"] in_lang_Ch by blast
  with n1 have "n1 @ ([c_jo] @ (sub @ par)) \<in> lang (Seq (Plus Digit) (Seq (Atom (Ch c_jo))
       (Seq (Opt (Seq (Atom (Ch c_ui)) (Plus Digit)))
            (Opt (Seq (Atom (Ch c_je)) (Seq (Plus Digit) (Atom (Ch c_hang))))))))"
    unfolding in_lang_Seq [of "n1 @ ([c_jo] @ (sub @ par))"] in_lang_digits by blast
  then have "[c_je] @ (n1 @ ([c_jo] @ (sub @ par))) \<in> lang relation_part_pattern"
    unfolding relation_part_pattern_def in_lang_Seq [of "[c_je] @ (n1 @ ([c_jo] @ (sub @ par)))"]
      in_lang_Ch by blast
  with m show "m \<in> lang relation_part_pattern" by simp
qed

lemma first_rest_lang:
  assumes "first_rest r adv s = Some t"
  shows "take (length s - length t) s \<in> lang r" and "s = take (length s - length t) s @ t"
proof -
  from assms have "t \<in> set (rests r s)" unfolding first_rest_def by (auto dest: find_SomeD)
  then obtain p where p: "p \<in> lang r" "s = p @ t" unfolding rests_lang by blast
  then have "take (length s - length t) s = p" by simp
  with p show "take (length s - length t) s \<in> lang r"
    and "s = take (length s - length t) s @ t" by simp_all
qed

lemma scan_matched_lang: "Matched m \<in> set (scan r adv s) \<Longrightarrow> m \<in> lang r"
proof (induction r adv s rule: scan.induct)
  case (1 r adv s)
  show ?case
  proof (cases "first_rest r adv s")
    case None
    show ?thesis
    proof (cases s)
      case Nil
      with None "1.prems" show ?thesis by (subst (asm) scan.simps) simp
    next
      case (Cons c cs)
      with None "1.prems" have "Matched m \<in> set (scan r False cs)"
        by (subst (asm) scan.simps) simp
      with None Cons "1.IH" show ?thesis by blast
    qed
  next
    case (Some t)
    from "1.prems" Some have
      "m = take (length s - length t) s
        \<or> Matched m \<in> set (if t = s then scan r True s else scan r False t)"
      by (subst (asm) scan.simps) simp
    then show ?thesis
    proof
      assume "m = take (length s - length t) s"
      with first_rest_lang(1) [OF Some] show ?thesis by simp
    next
      assume a: "Matched m \<in> set (if t = s then scan r True s else scan r False t)"
      show ?thesis
      proof (cases "t = s")
        case True
        with a Some "1.IH" show ?thesis by simp
      next
        case False
        with a Some "1.IH" show ?thesis by simp
      qed
    qed
  qed
qed

lemma append_matches_eq: "append_matches acc ms = acc @ ms"
  by (induction ms arbitrary: acc) simp_all

lemma get_relation_parts_eq: "get_relation_parts s = re_findall relation_part_pattern s"
  by (simp add: get_relation_parts_def append_matches_eq)

lemma re_findall_matched: "m \<in> set (re_findall r s) \<longleftrightarrow> Matched m \<in> set (scan r False s)"
  unfolding re_findall_def by (auto split: piece.splits)

lemma get_relation_parts_token: "m \<in> set (get_relation_parts s) \<Longrightarrow> ref_token m"
  unfolding get_relation_parts_eq re_findall_matched
  by (drule scan_matched_lang) (simp add: lang_relation_part)

lemma circled_not_decimal: "0x2460 \<le> c \<Longrightarrow> c \<le> 0x2473 \<Longrightarrow> \<not> is_decimal c"
  by (simp add: is_decimal_def nd_ranges_def)

lemma decimal_not_circled: "is_decimal c \<Longrightarrow> \<not> (0x2460 \<le> c \<and> c \<le> 0x2473)"
  using circled_not_decimal [of c] by blast

lemma ref_token_chars:
  "ref_token m \<Longrightarrow> c \<in> set m \<Longrightarrow> c \<in> {c_je, c_jo, c_ui, c_hang} \<or> is_decimal c"
  unfolding ref_token_def number_def by auto

text \<open>
  C6. The normalised text has no circled numeral (U+2460 to U+2473), and no match that
  the reference extractor returns, on any text, has one.
\<close>

theorem no_circled_numerals:
  "(\<forall>c\<in>set (clean_text s). \<not> (0x2460 \<le> c \<and> c \<le> 0x2473))
   \<and> (\<forall>m\<in>set (get_relation_parts s). \<forall>c\<in>set m. \<not> (0x2460 \<le> c \<and> c \<le> 0x2473))"
proof (intro conjI ballI)
  fix c assume "c \<in> set (clean_text s)"
  then show "\<not> (0x2460 \<le> c \<and> c \<le> 0x2473)" by (simp add: clean_text_chars)
next
  fix m c assume m: "m \<in> set (get_relation_parts s)" and c: "c \<in> set m"
  from m have "ref_token m" by (rule get_relation_parts_token)
  then have "c \<in> {c_je, c_jo, c_ui, c_hang} \<or> is_decimal c" using c by (rule ref_token_chars)
  then show "\<not> (0x2460 \<le> c \<and> c \<le> 0x2473)"
    using decimal_not_circled [of c] by (auto simp: c_je_def c_jo_def c_ui_def c_hang_def)
qed

theorem no_circled_numerals_witness:
  "clean_text [c_je, 0x31, c_jo, 0x2460, c_je, 0x2461, c_jo] = [c_je, 0x31, c_jo, c_je, c_jo]
   \<and> get_relation_parts [c_je, 0x31, c_jo, 0x2460, c_je, 0x2461, c_jo] = [[c_je, 0x31, c_jo]]
   \<and> 0x2460 \<notin> set (clean_text [c_je, 0x31, c_jo, 0x2460, c_je, 0x2461, c_jo])
   \<and> 0x2461 \<notin> set (concat (get_relation_parts [c_je, 0x31, c_jo, 0x2460, c_je, 0x2461, c_jo]))"
proof -
  let ?x = "[c_je, 0x31, c_jo, 0x2460, c_je, 0x2461, c_jo]"
  have a: "clean_text ?x = [c_je, 0x31, c_jo, c_je, c_jo]"
    by (simp add: clean_text_eq is_space_def c_je_def c_jo_def)
  have b: "get_relation_parts ?x = [[c_je, 0x31, c_jo]]"
    by (simp add: scan_simps char_simps match_simps)
  from no_circled_numerals [of ?x]
  have "\<forall>c\<in>set (clean_text ?x). \<not> (0x2460 \<le> c \<and> c \<le> 0x2473)"
    and "\<forall>m\<in>set (get_relation_parts ?x). \<forall>c\<in>set m. \<not> (0x2460 \<le> c \<and> c \<le> 0x2473)"
    by simp_all
  then have "0x2460 \<notin> set (clean_text ?x)" "0x2461 \<notin> set (concat (get_relation_parts ?x))"
    by force+
  with a b show ?thesis by simp
qed

section \<open>The extractor finds the leftmost longest references\<close>

lemma relation_part_pattern_parts:
  "relation_part_pattern = Seq (Atom (Ch c_je)) (Seq (Plus Digit) (Seq (Atom (Ch c_jo)) tail_rx))"
  by (simp add: relation_part_pattern_def tail_rx_def sub_rx_def par_rx_def)

lemma not_decimal: "\<not> is_decimal c_je" "\<not> is_decimal c_jo" "\<not> is_decimal c_ui" "\<not> is_decimal c_hang"
  by (simp_all add: char_simps)

lemma plus_rests_sorted: "by_length (plus_rests k s)"
proof (induction s)
  case Nil
  show ?case by (simp add: by_length_def)
next
  case (Cons c cs)
  then show ?case
    using plus_rests_shorter [of _ k cs]
    by (auto simp: by_length_def sorted_wrt_append)
qed

lemma plus_rests_ge: "t \<in> set (plus_rests k s) \<Longrightarrow> length (dropWhile (in_class k) s) \<le> length t"
proof (induction s)
  case Nil
  then show ?case by simp
next
  case (Cons c cs)
  show ?case
  proof (cases "in_class k c")
    case False
    with Cons.prems show ?thesis by simp
  next
    case True
    with Cons.prems have "t \<in> set (plus_rests k cs) \<or> t = cs" by auto
    then show ?thesis
    proof
      assume "t \<in> set (plus_rests k cs)"
      with Cons.IH True show ?thesis by simp
    next
      assume "t = cs"
      with True show ?thesis by (simp add: length_dropWhile_le)
    qed
  qed
qed

lemma plus_rests_none: "s = [] \<or> \<not> in_class k (hd s) \<Longrightarrow> plus_rests k s = []"
  by (cases s) auto

lemma concat_plus_rests:
  assumes f: "\<And>c cs. in_class k c \<Longrightarrow> f (c # cs) = []"
  shows "concat (map f (plus_rests k s))
     = (if s \<noteq> [] \<and> in_class k (hd s) then f (dropWhile (in_class k) s) else [])"
proof (induction s)
  case Nil
  show ?case by simp
next
  case (Cons c cs)
  show ?case
  proof (cases "in_class k c")
    case False
    then show ?thesis by simp
  next
    case True
    show ?thesis
    proof (cases "cs \<noteq> [] \<and> in_class k (hd cs)")
      case True
      then obtain d ds where "cs = d # ds" "in_class k d" by (cases cs) auto
      then have "f cs = []" by (simp add: f)
      with Cons.IH True \<open>in_class k c\<close> show ?thesis by simp
    next
      case False
      then have "plus_rests k cs = []" "dropWhile (in_class k) cs = cs"
        by (auto simp: plus_rests_none intro: dropWhile_unchanged)
      with \<open>in_class k c\<close> show ?thesis by simp
    qed
  qed
qed

lemma concat_opt_plus_rests:
  assumes g: "\<And>c cs. in_class k c \<Longrightarrow> g (c # cs) = []"
  shows "concat (map (\<lambda>t. g t @ [t]) (plus_rests k s))
     = (if s \<noteq> [] \<and> in_class k (hd s) then g (dropWhile (in_class k) s) @ plus_rests k s else [])"
proof (induction s)
  case Nil
  show ?case by simp
next
  case (Cons c cs)
  show ?case
  proof (cases "in_class k c")
    case False
    then show ?thesis by simp
  next
    case True
    show ?thesis
    proof (cases "cs \<noteq> [] \<and> in_class k (hd cs)")
      case True
      then obtain d ds where "cs = d # ds" "in_class k d" by (cases cs) auto
      then have "g cs = []" by (simp add: g)
      with Cons.IH True \<open>in_class k c\<close> show ?thesis by simp
    next
      case False
      then have "plus_rests k cs = []" "dropWhile (in_class k) cs = cs"
        by (auto simp: plus_rests_none intro: dropWhile_unchanged)
      with \<open>in_class k c\<close> show ?thesis by simp
    qed
  qed
qed

lemma rests_advance: "[] \<notin> lang r \<Longrightarrow> t \<in> set (rests r s) \<Longrightarrow> length t < length s"
proof -
  assume e: "[] \<notin> lang r" and "t \<in> set (rests r s)"
  then obtain p where "p \<in> lang r" "s = p @ t" unfolding rests_lang by blast
  with e show ?thesis by (cases p) auto
qed

lemma par_rx_nonempty: "[] \<notin> lang par_rx"
  by (simp add: par_rx_def)

lemma short_by_length: "length ts \<le> 1 \<Longrightarrow> by_length ts"
proof (cases ts)
  case Nil
  then show ?thesis by (simp add: by_length_def)
next
  case (Cons a as)
  assume "length ts \<le> 1"
  with Cons show ?thesis by (simp add: by_length_def)
qed

lemma rests_par_digit: "is_decimal c \<Longrightarrow> rests par_rx (c # cs) = []"
  using not_decimal(1) by (auto simp: par_rx_def)

lemma rests_par_other: "c \<noteq> c_je \<Longrightarrow> rests par_rx (c # cs) = []"
  by (simp add: par_rx_def)

lemma rests_par_short: "length (rests par_rx v) \<le> 1"
proof (cases v)
  case Nil
  then show ?thesis by (simp add: par_rx_def)
next
  case (Cons x xs)
  have f: "\<And>c cs. in_class Digit c \<Longrightarrow> rests (Atom (Ch c_hang)) (c # cs) = []"
    using not_decimal(4) by auto
  have short: "length (rests (Atom (Ch c_hang)) w) \<le> 1" for w by (cases w) simp_all
  have "concat (map (rests (Atom (Ch c_hang))) (plus_rests Digit xs))
      = (if xs \<noteq> [] \<and> in_class Digit (hd xs)
         then rests (Atom (Ch c_hang)) (dropWhile (in_class Digit) xs) else [])"
    using f by (rule concat_plus_rests)
  then have "length (concat (map (rests (Atom (Ch c_hang))) (plus_rests Digit xs))) \<le> 1"
    using short [of "dropWhile (in_class Digit) xs"]
    by (cases "xs \<noteq> [] \<and> in_class Digit (hd xs)") simp_all
  with Cons show ?thesis by (simp add: par_rx_def)
qed

lemma rests_tail_sorted: "by_length (rests tail_rx u)"
proof -
  have g: "\<And>c cs. in_class Digit c \<Longrightarrow> rests par_rx (c # cs) = []"
    by (simp add: rests_par_digit)
  have par_u: "by_length (rests par_rx u @ [u])"
    using rests_par_short [of u] rests_advance [OF par_rx_nonempty, of _ u]
      short_by_length [of "rests par_rx u"]
    by (auto simp: by_length_def sorted_wrt_append)
  have "rests (Opt par_rx) = (\<lambda>t. rests par_rx t @ [t])" by (rule ext) simp
  then have split: "rests tail_rx u
      = concat (map (\<lambda>t. rests par_rx t @ [t]) (rests sub_rx u)) @ rests par_rx u @ [u]"
    by (simp add: tail_rx_def)
  show ?thesis
  proof (cases "\<exists>xs. u = c_ui # xs \<and> xs \<noteq> [] \<and> is_decimal (hd xs)")
    case False
    have "rests sub_rx u = []"
    proof (cases u)
      case Nil
      then show ?thesis by (simp add: sub_rx_def)
    next
      case (Cons x xs)
      with False have "x \<noteq> c_ui \<or> plus_rests Digit xs = []"
        by (auto simp: plus_rests_none)
      with Cons show ?thesis by (auto simp: sub_rx_def)
    qed
    with split par_u show ?thesis by simp
  next
    case True
    then obtain xs where u: "u = c_ui # xs" and d: "xs \<noteq> [] \<and> is_decimal (hd xs)" by blast
    let ?w = "dropWhile (in_class Digit) xs"
    have "c_ui \<noteq> c_je" by (simp add: c_ui_def c_je_def)
    then have "rests par_rx u = []" unfolding u by (rule rests_par_other)
    moreover have "rests sub_rx u = plus_rests Digit xs" by (simp add: u sub_rx_def)
    moreover have "concat (map (\<lambda>t. rests par_rx t @ [t]) (plus_rests Digit xs))
        = (if xs \<noteq> [] \<and> in_class Digit (hd xs) then rests par_rx ?w @ plus_rests Digit xs else [])"
      using g by (rule concat_opt_plus_rests)
    ultimately have eq: "rests tail_rx u = rests par_rx ?w @ plus_rests Digit xs @ [u]"
      using d by (simp add: split)
    have 1: "by_length (rests par_rx ?w)"
      using rests_par_short by (rule short_by_length)
    have 2: "by_length (plus_rests Digit xs)" by (rule plus_rests_sorted)
    have 3: "length b < length u" if "b \<in> set (plus_rests Digit xs)" for b
      using plus_rests_shorter [OF that] by (simp add: u)
    have 4: "length a < length b"
      if "a \<in> set (rests par_rx ?w)" "b \<in> set (plus_rests Digit xs)" for a b
      using rests_advance [OF par_rx_nonempty that(1)] plus_rests_ge [OF that(2)] by simp
    have 5: "length a < length u" if "a \<in> set (rests par_rx ?w)" for a
      using rests_advance [OF par_rx_nonempty that] length_dropWhile_le [of "in_class Digit" xs]
      by (simp add: u)
    show ?thesis
      unfolding eq using 1 2 3 4 5 by (auto simp: by_length_def sorted_wrt_append)
  qed
qed

lemma rests_pattern_sorted: "by_length (rests relation_part_pattern s)"
proof (cases s)
  case Nil
  then show ?thesis by (simp add: relation_part_pattern_parts by_length_def)
next
  case (Cons x xs)
  let ?f = "rests (Seq (Atom (Ch c_jo)) tail_rx)"
  have f: "\<And>c cs. in_class Digit c \<Longrightarrow> ?f (c # cs) = []"
    using not_decimal(2) by auto
  have "by_length (?f v)" for v
  proof (cases v)
    case Nil
    then show ?thesis by (simp add: by_length_def)
  next
    case (Cons y u)
    then show ?thesis using rests_tail_sorted [of u] by (simp add: by_length_def)
  qed
  then have "by_length (if xs \<noteq> [] \<and> in_class Digit (hd xs)
         then ?f (dropWhile (in_class Digit) xs) else [])"
    by (simp add: by_length_def)
  moreover have "concat (map ?f (plus_rests Digit xs))
      = (if xs \<noteq> [] \<and> in_class Digit (hd xs)
         then ?f (dropWhile (in_class Digit) xs) else [])"
    using f by (rule concat_plus_rests)
  ultimately have "by_length (concat (map ?f (plus_rests Digit xs)))" by (simp only:)
  with Cons show ?thesis by (simp add: relation_part_pattern_parts by_length_def)
qed

lemma greedy_is_longest:
  "rests relation_part_pattern s = t # ts \<Longrightarrow> t' \<in> set (t # ts) \<Longrightarrow> length t \<le> length t'"
  using rests_pattern_sorted [of s] by (auto simp: by_length_def intro: less_imp_le)

lemma ref_token_nonempty: "ref_token m \<Longrightarrow> m \<noteq> []"
  by (auto simp: ref_token_def)

lemma pattern_nonempty: "[] \<notin> lang relation_part_pattern"
  using ref_token_nonempty [of "[]"] by (auto simp: lang_relation_part)

lemma rests_pattern_iff:
  "t \<in> set (rests relation_part_pattern s) \<longleftrightarrow> (\<exists>p. ref_token p \<and> s = p @ t)"
  unfolding rests_lang by (auto simp: lang_relation_part)

lemma refs_end: "get_relation_parts [] = []"
proof -
  have "rests relation_part_pattern [] = []" by (simp add: relation_part_pattern_def)
  then show ?thesis by (simp add: get_relation_parts_eq re_findall_def scan_end)
qed

lemma refs_skip:
  "rests relation_part_pattern (c # cs) = [] \<Longrightarrow> get_relation_parts (c # cs) = get_relation_parts cs"
  by (simp add: get_relation_parts_eq re_findall_def scan_skip)

lemma refs_match:
  assumes "rests relation_part_pattern s = t # ts"
  shows "get_relation_parts s = take (length s - length t) s # get_relation_parts t"
proof -
  have "t \<in> set (rests relation_part_pattern s)" using assms by simp
  then have "length t < length s" by (rule rests_advance [OF pattern_nonempty])
  then have "t \<noteq> s" by auto
  with assms show ?thesis by (simp add: get_relation_parts_eq re_findall_def scan_match)
qed

lemma extractor_nonoverlapping: "nonoverlapping_matches ref_token s (get_relation_parts s)"
proof (induction s rule: length_induct)
  case (1 s)
  show ?case
  proof (cases "rests relation_part_pattern s")
    case Nil
    show ?thesis
    proof (cases s)
      case Nil
      then show ?thesis by (simp add: refs_end at_end)
    next
      case (Cons c cs)
      have "\<forall>p. prefix p (c # cs) \<longrightarrow> \<not> ref_token p"
      proof (intro allI impI notI)
        fix p assume "prefix p (c # cs)" "ref_token p"
        then obtain t where "ref_token p \<and> s = p @ t" unfolding Cons prefix_def by blast
        then have "t \<in> set (rests relation_part_pattern s)" unfolding rests_pattern_iff by blast
        with \<open>rests relation_part_pattern s = []\<close> show False by simp
      qed
      moreover have "nonoverlapping_matches ref_token cs (get_relation_parts cs)"
        using 1 Cons by simp
      ultimately have "nonoverlapping_matches ref_token (c # cs) (get_relation_parts cs)"
        by (rule no_match)
      with Cons \<open>rests relation_part_pattern s = []\<close> show ?thesis by (simp add: refs_skip)
    qed
  next
    case (Cons t ts)
    let ?m = "take (length s - length t) s"
    have t: "t \<in> set (rests relation_part_pattern s)" using Cons by simp
    then obtain p where p: "ref_token p" "s = p @ t" unfolding rests_pattern_iff by blast
    then have m: "?m = p" by simp
    have lt: "length t < length s" using t by (rule rests_advance [OF pattern_nonempty])
    have longest: "\<forall>q. ref_token q \<and> prefix q (p @ t) \<longrightarrow> length q \<le> length p"
    proof (intro allI impI)
      fix q assume q: "ref_token q \<and> prefix q (p @ t)"
      then obtain t' where t': "s = q @ t'" unfolding prefix_def p(2) by blast
      with q have "t' \<in> set (t # ts)" unfolding Cons [symmetric] rests_pattern_iff by blast
      with Cons have "length t \<le> length t'" by (rule greedy_is_longest)
      moreover have "length p + length t = length q + length t'"
        using p(2) t' by (metis length_append)
      ultimately show "length q \<le> length p" by simp
    qed
    have "nonoverlapping_matches ref_token t (get_relation_parts t)" using 1 lt by simp
    with p(1) ref_token_nonempty [OF p(1)] longest
    have "nonoverlapping_matches ref_token (p @ t) (p # get_relation_parts t)"
      by (rule match)
    then show ?thesis using refs_match [OF Cons] m p(2) by simp
  qed
qed

lemma nonoverlapping_unique:
  "nonoverlapping_matches ref_token s ms \<Longrightarrow> ms = get_relation_parts s"
proof (induction rule: nonoverlapping_matches.induct)
  case at_end
  show ?case by (simp add: refs_end)
next
  case (no_match c cs ms)
  have "rests relation_part_pattern (c # cs) = []"
  proof (rule ccontr)
    assume "rests relation_part_pattern (c # cs) \<noteq> []"
    then obtain t where "t \<in> set (rests relation_part_pattern (c # cs))"
      by (cases "rests relation_part_pattern (c # cs)") auto
    then obtain p where "ref_token p" "c # cs = p @ t" unfolding rests_pattern_iff by blast
    then have "ref_token p \<and> prefix p (c # cs)" by (simp add: prefix_def)
    with no_match.hyps(1) show False by blast
  qed
  with no_match.IH show ?case by (simp add: refs_skip)
next
  case (match m rest ms)
  let ?s = "m @ rest"
  have r: "rest \<in> set (rests relation_part_pattern ?s)"
    unfolding rests_pattern_iff using match.hyps(1) by blast
  then obtain t ts where ts: "rests relation_part_pattern ?s = t # ts"
    by (cases "rests relation_part_pattern ?s") auto
  then have "t \<in> set (rests relation_part_pattern ?s)" by simp
  then obtain p where p: "ref_token p" "?s = p @ t" unfolding rests_pattern_iff by blast
  then have "prefix p ?s" by (simp add: prefix_def)
  with p(1) match.hyps(3) have 1: "length p \<le> length m" by blast
  from r ts have "rest \<in> set (t # ts)" by simp
  with ts have "length t \<le> length rest" by (rule greedy_is_longest)
  moreover have "length m + length rest = length p + length t"
    using p(2) by (metis length_append)
  ultimately have "length p = length m" using 1 by simp
  with p(2) have "p = m" "t = rest" by simp_all
  then have "take (length ?s - length t) ?s = m" by simp
  with refs_match [OF ts] \<open>t = rest\<close> match.IH show ?case by simp
qed

text \<open>
  C7. On every text the extractor returns the non-overlapping matches of the reference
  pattern from left to right: scanning from the start, a position where no reference
  begins is passed over, and where one begins the longest reference there is reported
  and the scan goes on behind it. Every occurrence found is reported, so a reference
  that occurs twice is in the list twice.
\<close>

theorem extractor_exact:
  "nonoverlapping_matches ref_token s ms \<longleftrightarrow> ms = get_relation_parts s"
  using extractor_nonoverlapping [of s] nonoverlapping_unique [of s ms] by blast

theorem extractor_exact_witness:
  "get_relation_parts
     [c_je, 0x31, c_jo, 0x20, c_je, 0x31, c_jo, c_ui, 0x32, c_je, 0x33, c_hang, c_je, 0x31, c_jo]
     = [[c_je, 0x31, c_jo], [c_je, 0x31, c_jo, c_ui, 0x32, c_je, 0x33, c_hang], [c_je, 0x31, c_jo]]
   \<and> nonoverlapping_matches ref_token
       [c_je, 0x31, c_jo, 0x20, c_je, 0x31, c_jo, c_ui, 0x32, c_je, 0x33, c_hang, c_je, 0x31, c_jo]
       [[c_je, 0x31, c_jo], [c_je, 0x31, c_jo, c_ui, 0x32, c_je, 0x33, c_hang], [c_je, 0x31, c_jo]]
   \<and> \<not> nonoverlapping_matches ref_token
       [c_je, 0x31, c_jo, 0x20, c_je, 0x31, c_jo, c_ui, 0x32, c_je, 0x33, c_hang, c_je, 0x31, c_jo]
       [[c_je, 0x31, c_jo], [c_je, 0x31, c_jo, c_ui, 0x32, c_je, 0x33, c_hang]]"
proof -
  let ?x = "[c_je, 0x31, c_jo, 0x20, c_je, 0x31, c_jo, c_ui, 0x32, c_je, 0x33, c_hang, c_je, 0x31, c_jo]"
  have e: "get_relation_parts ?x
      = [[c_je, 0x31, c_jo], [c_je, 0x31, c_jo, c_ui, 0x32, c_je, 0x33, c_hang], [c_je, 0x31, c_jo]]"
    by (simp add: scan_simps char_simps match_simps)
  from extractor_exact [of ?x "get_relation_parts ?x"]
  have "nonoverlapping_matches ref_token ?x (get_relation_parts ?x)" by simp
  moreover from extractor_exact
    [of ?x "[[c_je, 0x31, c_jo], [c_je, 0x31, c_jo, c_ui, 0x32, c_je, 0x33, c_hang]]"]
  have "\<not> nonoverlapping_matches ref_token ?x
      [[c_je, 0x31, c_jo], [c_je, 0x31, c_jo, c_ui, 0x32, c_je, 0x33, c_hang]]"
    by (simp add: e)
  ultimately show ?thesis by (simp add: e)
qed

end
